theory Spec2Isabelle
  imports
    Complex_Main
    "HOL-Library.Word"
    "HOL-Library.Sublist"
    "HOL-Library.List_Lexorder"
    "HOL-Library.Multiset"
begin

section \<open>Encrypted semantic memory of Project Harmony\<close>

text \<open>
  A shallow embedding of \<^verbatim>\<open>services/securityUtils.ts\<close> (key store, AES-GCM
  envelope, PII redaction), \<^verbatim>\<open>services/vectorDbService.ts\<close> (the vector store
  and its search) and of the memory-related part of \<^verbatim>\<open>handleSend\<close> in
  \<^verbatim>\<open>components/ChatInterface.tsx\<close>.

  Conventions of the model.
  \<^item> A JavaScript string is the list of its UTF-16 code units, each a natural number
    (a real string only holds units below \<open>0x10000\<close>).
  \<^item> A \<^verbatim>\<open>Uint8Array\<close> is a list of 8-bit words.
  \<^item> A promise is modelled by the way it settles: resolved with a value, rejected
    with an error, or never settled.
  \<^item> Everything the browser decides (random nonce, random UUID, clock, embedding
    provider, language model, AES-GCM itself, failures of IndexedDB) is an explicit
    input of the function that consumes it.
  \<^item> JavaScript numbers holding scores and vector components are modelled as real
    numbers: rounding, NaN and infinities of IEEE doubles are outside the model.
  \<^item> The number of arguments the JavaScript engine accepts in one call is an input
    of \<^verbatim>\<open>encryptData\<close>, which spreads an array into \<^verbatim>\<open>String.fromCharCode\<close>.
    Memory limits are outside the model.
\<close>

subsection \<open>Strings, bytes, errors, promises\<close>

type_synonym jsstring = "nat list"

type_synonym byte = "8 word"

text \<open>A string literal of the source: the code units of its ASCII characters.\<close>

definition js :: "string \<Rightarrow> jsstring" where
  "js s = map of_char s"

text \<open>
  The errors the modelled code can raise. \<open>InvalidCharacterError\<close> is the
  \<^verbatim>\<open>DOMException\<close> of \<^verbatim>\<open>atob\<close>/\<^verbatim>\<open>btoa\<close>, \<open>OperationError\<close> the one of
  \<^verbatim>\<open>crypto.subtle.decrypt\<close> when the tag does not verify, \<open>ConstraintError\<close> the one
  of \<^verbatim>\<open>IDBObjectStore.add\<close> on an existing key, \<open>RangeError\<close> what the engine
  throws at a call with more arguments than it accepts. \<open>ProviderError\<close> is whatever
  \<^verbatim>\<open>getEmbedding\<close> or \<^verbatim>\<open>streamChat\<close> rethrows, \<open>StoreError\<close> any other failure
  reported by IndexedDB.
\<close>

datatype error =
    InvalidCharacterError
  | OperationError
  | ConstraintError
  | RangeError
  | ProviderError
  | StoreError

datatype 'a promise = Resolved 'a | Rejected error | Pending

subsection \<open>Platform: base64 (\<^verbatim>\<open>btoa\<close>, \<^verbatim>\<open>atob\<close>)\<close>

text \<open>
  \<^verbatim>\<open>btoa\<close> and \<^verbatim>\<open>atob\<close> are the forgiving-base64 encode and decode of the WHATWG
  Infra standard, over binary strings (code units up to 255).
\<close>

definition b64_char :: "nat \<Rightarrow> nat" where
  "b64_char n =
     (if n < 26 then 65 + n
      else if n < 52 then 71 + n
      else if n < 62 then n - 4
      else if n = 62 then 43
      else 47)"

definition b64_value :: "nat \<Rightarrow> nat option" where
  "b64_value c =
     (if 65 \<le> c \<and> c \<le> 90 then Some (c - 65)
      else if 97 \<le> c \<and> c \<le> 122 then Some (c - 71)
      else if 48 \<le> c \<and> c \<le> 57 then Some (c + 4)
      else if c = 43 then Some 62
      else if c = 47 then Some 63
      else None)"

fun b64_encode :: "nat list \<Rightarrow> nat list" where
  "b64_encode [] = []"
| "b64_encode [a] =
     [b64_char (a div 4), b64_char ((a mod 4) * 16), 61, 61]"
| "b64_encode [a, b] =
     [b64_char (a div 4), b64_char ((a mod 4) * 16 + b div 16),
      b64_char ((b mod 16) * 4), 61]"
| "b64_encode (a # b # c # rest) =
     [b64_char (a div 4), b64_char ((a mod 4) * 16 + b div 16),
      b64_char ((b mod 16) * 4 + c div 64), b64_char (c mod 64)] @ b64_encode rest"

definition btoa :: "jsstring \<Rightarrow> error + jsstring" where
  "btoa s =
     (if list_ex (\<lambda>c. 255 < c) s then Inl InvalidCharacterError
      else Inr (b64_encode s))"

definition ascii_whitespace :: "nat \<Rightarrow> bool" where
  "ascii_whitespace c = (c = 9 \<or> c = 10 \<or> c = 12 \<or> c = 13 \<or> c = 32)"

text \<open>Step 2 of forgiving-base64 decode: one or two trailing \<open>=\<close> are removed
  when the length is a multiple of four.\<close>

definition strip_padding :: "nat list \<Rightarrow> nat list" where
  "strip_padding d =
     (if length d mod 4 = 0 \<and> d \<noteq> [] \<and> last d = 61 then
        (if butlast d \<noteq> [] \<and> last (butlast d) = 61 then butlast (butlast d)
         else butlast d)
      else d)"

text \<open>Groups of four sextets give three bytes; a rest of three sextets gives two
  bytes and a rest of two gives one (the surplus bits are discarded).\<close>

fun b64_decode :: "nat list \<Rightarrow> nat list" where
  "b64_decode (a # b # c # d # rest) =
     [a * 4 + b div 16, (b mod 16) * 16 + c div 4, (c mod 4) * 64 + d] @ b64_decode rest"
| "b64_decode [a, b, c] = [a * 4 + b div 16, (b mod 16) * 16 + c div 4]"
| "b64_decode [a, b] = [a * 4 + b div 16]"
| "b64_decode [a] = []"
| "b64_decode [] = []"

definition atob :: "jsstring \<Rightarrow> error + jsstring" where
  "atob s =
     (let d = strip_padding (filter (\<lambda>c. \<not> ascii_whitespace c) s) in
      if length d mod 4 = 1 then Inl InvalidCharacterError
      else if list_ex (\<lambda>c. b64_value c = None) d then Inl InvalidCharacterError
      else Inr (b64_decode (map (\<lambda>c. the (b64_value c)) d)))"

subsection \<open>Platform: UTF-8 (\<^verbatim>\<open>TextEncoder\<close>, \<^verbatim>\<open>TextDecoder\<close>)\<close>

definition lead_surrogate :: "nat \<Rightarrow> bool" where
  "lead_surrogate u = (0xD800 \<le> u \<and> u \<le> 0xDBFF)"

definition trail_surrogate :: "nat \<Rightarrow> bool" where
  "trail_surrogate u = (0xDC00 \<le> u \<and> u \<le> 0xDFFF)"

text \<open>
  \<^verbatim>\<open>TextEncoder.encode\<close> first converts the string to scalar values: a surrogate
  pair is one code point, an unpaired surrogate becomes U+FFFD.
\<close>

fun to_scalars :: "jsstring \<Rightarrow> nat list" where
  "to_scalars [] = []"
| "to_scalars [u] = (if lead_surrogate u \<or> trail_surrogate u then [0xFFFD] else [u])"
| "to_scalars (u # v # rest) =
     (if lead_surrogate u \<and> trail_surrogate v
      then (0x10000 + (u - 0xD800) * 0x400 + (v - 0xDC00)) # to_scalars rest
      else (if lead_surrogate u \<or> trail_surrogate u then 0xFFFD else u)
           # to_scalars (v # rest))"

definition utf8_encode_cp :: "nat \<Rightarrow> nat list" where
  "utf8_encode_cp c =
     (if c < 0x80 then [c]
      else if c < 0x800 then [0xC0 + c div 64, 0x80 + c mod 64]
      else if c < 0x10000 then
        [0xE0 + c div 4096, 0x80 + (c div 64) mod 64, 0x80 + c mod 64]
      else
        [0xF0 + c div 262144, 0x80 + (c div 4096) mod 64,
         0x80 + (c div 64) mod 64, 0x80 + c mod 64])"

definition TextEncoder_encode :: "jsstring \<Rightarrow> byte list" where
  "TextEncoder_encode s = map of_nat (concat (map utf8_encode_cp (to_scalars s)))"

text \<open>
  The UTF-8 decoder of the WHATWG Encoding standard in its default (replacement)
  error mode: \<open>cp\<close> is the code point under construction, \<open>need\<close> the number of
  continuation bytes still expected, \<open>lo\<close> and \<open>hi\<close> the bounds of the next
  continuation byte. A byte that cannot continue a sequence ends it with U+FFFD and is
  read again as the start of a new one.
\<close>

function utf8_dec :: "nat \<Rightarrow> nat \<Rightarrow> nat \<Rightarrow> nat \<Rightarrow> nat list \<Rightarrow> nat list" where
  "utf8_dec cp need lo hi [] = (if need \<noteq> 0 then [0xFFFD] else [])"
| "utf8_dec cp need lo hi (b # bs) =
     (if need = 0 then
        (if b \<le> 0x7F then b # utf8_dec 0 0 0x80 0xBF bs
         else if 0xC2 \<le> b \<and> b \<le> 0xDF then utf8_dec (b mod 32) 1 0x80 0xBF bs
         else if 0xE0 \<le> b \<and> b \<le> 0xEF then
           utf8_dec (b mod 16) 2 (if b = 0xE0 then 0xA0 else 0x80)
             (if b = 0xED then 0x9F else 0xBF) bs
         else if 0xF0 \<le> b \<and> b \<le> 0xF4 then
           utf8_dec (b mod 8) 3 (if b = 0xF0 then 0x90 else 0x80)
             (if b = 0xF4 then 0x8F else 0xBF) bs
         else 0xFFFD # utf8_dec 0 0 0x80 0xBF bs)
      else if b < lo \<or> hi < b then 0xFFFD # utf8_dec 0 0 0x80 0xBF (b # bs)
      else if need = 1 then (cp * 64 + b mod 64) # utf8_dec 0 0 0x80 0xBF bs
      else utf8_dec (cp * 64 + b mod 64) (need - 1) 0x80 0xBF bs)"
  by pat_completeness auto
termination
  by (relation "measure (\<lambda>(cp, need, lo, hi, bs). 2 * length bs + (if need = 0 then 0 else 1))")
     auto

text \<open>A \<^verbatim>\<open>TextDecoder\<close> built without options drops a leading U+FEFF.\<close>

fun strip_bom :: "nat list \<Rightarrow> nat list" where
  "strip_bom [] = []"
| "strip_bom (c # cs) = (if c = 0xFEFF then cs else c # cs)"

definition utf16_encode_cp :: "nat \<Rightarrow> nat list" where
  "utf16_encode_cp c =
     (if c < 0x10000 then [c]
      else [0xD800 + (c - 0x10000) div 0x400, 0xDC00 + (c - 0x10000) mod 0x400])"

definition TextDecoder_decode :: "byte list \<Rightarrow> jsstring" where
  "TextDecoder_decode bs =
     concat (map utf16_encode_cp (strip_bom (utf8_dec 0 0 0x80 0xBF (map unat bs))))"

subsection \<open>\<^verbatim>\<open>encryptData\<close> and \<^verbatim>\<open>decryptData\<close>\<close>

text \<open>
  AES-GCM of \<^verbatim>\<open>window.crypto.subtle\<close> is a parameter: \<open>subtle_encrypt key iv data\<close>
  is the ciphertext followed by the tag, \<open>subtle_decrypt key iv data\<close> is \<open>None\<close>
  when the tag does not verify (the browser then rejects with \<open>OperationError\<close>).
\<close>

record 'k subtle =
  subtle_encrypt :: "'k \<Rightarrow> byte list \<Rightarrow> byte list \<Rightarrow> byte list"
  subtle_decrypt :: "'k \<Rightarrow> byte list \<Rightarrow> byte list \<Rightarrow> byte list option"

text \<open>The contract of AES-GCM that the round trip relies on.\<close>

definition subtle_correct :: "'k subtle \<Rightarrow> bool" where
  "subtle_correct cr =
     (\<forall>k iv data. subtle_decrypt cr k iv (subtle_encrypt cr k iv data) = Some data)"

text \<open>
  \<open>iv\<close> is the value drawn by \<^verbatim>\<open>getRandomValues(new Uint8Array(12))\<close>. The last
  line, \<^verbatim>\<open>btoa(String.fromCharCode(...combined))\<close>, passes every byte of
  \<open>combined\<close> as an argument of its own; \<open>max_args\<close> is the number of arguments
  the engine accepts in one call, and the call throws \<open>RangeError\<close> beyond it.
\<close>

definition encryptData ::
  "'k subtle \<Rightarrow> nat \<Rightarrow> byte list \<Rightarrow> jsstring \<Rightarrow> 'k \<Rightarrow> error + jsstring" where
  "encryptData cr max_args iv text_in key =
     (let encoded = TextEncoder_encode text_in;
          encrypted = subtle_encrypt cr key iv encoded;
          combined = iv @ encrypted
      in if max_args < length combined then Inl RangeError
         else btoa (map unat combined))"

definition decryptData :: "'k subtle \<Rightarrow> jsstring \<Rightarrow> 'k \<Rightarrow> error + jsstring" where
  "decryptData cr encryptedBase64 key =
     (case atob encryptedBase64 of
        Inl e \<Rightarrow> Inl e
      | Inr binary \<Rightarrow>
          (let bytes = map of_nat binary :: byte list;
               iv = take 12 bytes;
               data = drop 12 bytes
           in case subtle_decrypt cr key iv data of
                None \<Rightarrow> Inl OperationError
              | Some decrypted \<Rightarrow> Inr (TextDecoder_decode decrypted)))"

subsection \<open>Platform: regular expressions and \<^verbatim>\<open>String.prototype.replace\<close>\<close>

text \<open>
  The two patterns of \<^verbatim>\<open>redactPII\<close> use character classes, sequencing and the
  greedy quantifiers \<open>?\<close>, \<open>+\<close>, \<open>{n}\<close>, \<open>{n,}\<close> and \<open>{1,2}\<close>; their only
  group is never referred to. \<open>Star\<close> is the greedy \<open>*\<close>; the bounded quantifiers
  are written with it below.
\<close>

datatype re =
    Eps
  | Cls "nat \<Rightarrow> bool"
  | Seq re re
  | Opt re
  | Star re

text \<open>
  The backtracking matcher of ECMAScript, as the list of the ways a pattern can match
  at the start of \<open>s\<close>: each way is given by the rest of \<open>s\<close> after the match, and the
  list is in the order in which backtracking tries them (greedy: the longer
  alternative of a quantifier first). An iteration of a quantifier that is not
  required and consumes nothing is rejected, as ECMAScript's RepeatMatcher does.
  \<open>star_iter\<close> runs at most \<open>n\<close> iterations; every iteration consumes a code unit,
  so \<open>length s\<close> iterations are all there can be.
\<close>

fun star_iter :: "(nat list \<Rightarrow> nat list list) \<Rightarrow> nat \<Rightarrow> nat list \<Rightarrow> nat list list" where
  "star_iter f 0 s = [s]"
| "star_iter f (Suc n) s =
     concat (map (\<lambda>r. if length r < length s then star_iter f n r else []) (f s)) @ [s]"

primrec matches :: "re \<Rightarrow> nat list \<Rightarrow> nat list list" where
  "matches Eps s = [s]"
| "matches (Cls p) s = (case s of [] \<Rightarrow> [] | c # cs \<Rightarrow> if p c then [cs] else [])"
| "matches (Seq a b) s = concat (map (matches b) (matches a s))"
| "matches (Opt a) s = filter (\<lambda>r. length r < length s) (matches a s) @ [s]"
| "matches (Star a) s = star_iter (matches a) (length s) s"

text \<open>The length of the match the engine reports at the start of \<open>s\<close>, if any.\<close>

definition firstMatch :: "re \<Rightarrow> nat list \<Rightarrow> nat option" where
  "firstMatch r s = (case matches r s of [] \<Rightarrow> None | rest # _ \<Rightarrow> Some (length s - length rest))"

text \<open>
  \<^verbatim>\<open>s.replace(/r/g, tok)\<close> for a replacement text without \<open>$\<close>: scan from the
  left; where the pattern matches, emit \<open>tok\<close> and continue after the match (after
  one more code unit when the match is empty); elsewhere copy the code unit.
\<close>

function replaceAll :: "re \<Rightarrow> jsstring \<Rightarrow> jsstring \<Rightarrow> jsstring" where
  "replaceAll r tok [] = (case firstMatch r [] of None \<Rightarrow> [] | Some l \<Rightarrow> tok)"
| "replaceAll r tok (c # cs) =
     (case firstMatch r (c # cs) of
        None \<Rightarrow> c # replaceAll r tok cs
      | Some l \<Rightarrow>
          if l = 0 then tok @ c # replaceAll r tok cs
          else tok @ replaceAll r tok (drop l (c # cs)))"
  by pat_completeness auto
termination
  by (relation "measure (\<lambda>(r, tok, s). length s)") auto

text \<open>\<^verbatim>\<open>r.test(s)\<close> is false: the pattern matches nowhere in \<open>s\<close>.\<close>

definition matchFree :: "re \<Rightarrow> jsstring \<Rightarrow> bool" where
  "matchFree r s = list_all (\<lambda>u. firstMatch r u = None) (suffixes s)"

text \<open>The quantifiers of the source's patterns.\<close>

definition Plus :: "re \<Rightarrow> re" where
  "Plus a = Seq a (Star a)"

primrec Exactly :: "nat \<Rightarrow> re \<Rightarrow> re" where
  "Exactly 0 a = Eps"
| "Exactly (Suc n) a = Seq a (Exactly n a)"

definition AtLeast :: "nat \<Rightarrow> re \<Rightarrow> re" where
  "AtLeast n a = Seq (Exactly n a) (Star a)"

definition OneOrTwo :: "re \<Rightarrow> re" where
  "OneOrTwo a = Seq a (Opt a)"

definition Chr :: "char \<Rightarrow> re" where
  "Chr c = Cls (\<lambda>u. u = of_char c)"

subsection \<open>\<^verbatim>\<open>redactPII\<close>\<close>

definition digit :: "nat \<Rightarrow> bool" where
  "digit u = (0x30 \<le> u \<and> u \<le> 0x39)"

definition alpha :: "nat \<Rightarrow> bool" where
  "alpha u = ((0x41 \<le> u \<and> u \<le> 0x5A) \<or> (0x61 \<le> u \<and> u \<le> 0x7A))"

text \<open>\<open>[a-zA-Z0-9._%+-]\<close>\<close>

definition email_local :: "nat \<Rightarrow> bool" where
  "email_local u = (alpha u \<or> digit u \<or> u \<in> set (js ''._%+-''))"

text \<open>\<open>[a-zA-Z0-9.-]\<close>\<close>

definition email_domain :: "nat \<Rightarrow> bool" where
  "email_domain u = (alpha u \<or> digit u \<or> u \<in> set (js ''.-''))"

text \<open>\<open>\s\<close>: the white space and line terminators of ECMAScript.\<close>

definition js_space :: "nat \<Rightarrow> bool" where
  "js_space u =
     (u \<in> {0x9, 0xA, 0xB, 0xC, 0xD, 0x20, 0xA0, 0x1680, 0x2028, 0x2029, 0x202F, 0x205F,
            0x3000, 0xFEFF}
      \<or> (0x2000 \<le> u \<and> u \<le> 0x200A))"

text \<open>\<open>[\s.-]\<close>\<close>

definition separator :: "nat \<Rightarrow> bool" where
  "separator u = (js_space u \<or> u \<in> set (js ''.-''))"

text \<open>\<^verbatim>\<open>/[a-zA-Z0-9._%+-]+@[a-zA-Z0-9.-]+\.[a-zA-Z]{2,}/g\<close>\<close>

definition email_re :: re where
  "email_re =
     Seq (Plus (Cls email_local))
    (Seq (Chr CHR ''@'')
    (Seq (Plus (Cls email_domain))
    (Seq (Chr CHR ''.'')
         (AtLeast 2 (Cls alpha)))))"

text \<open>\<^verbatim>\<open>/(\+\d{1,2}\s?)?\(?\d{3}\)?[\s.-]?\d{3}[\s.-]?\d{4}/g\<close>\<close>

definition phone_re :: re where
  "phone_re =
     Seq (Opt (Seq (Chr CHR ''+'') (Seq (OneOrTwo (Cls digit)) (Opt (Cls js_space)))))
    (Seq (Opt (Chr CHR ''(''))
    (Seq (Exactly 3 (Cls digit))
    (Seq (Opt (Chr CHR '')''))
    (Seq (Opt (Cls separator))
    (Seq (Exactly 3 (Cls digit))
    (Seq (Opt (Cls separator))
         (Exactly 4 (Cls digit))))))))"

definition EMAIL_REDACTED :: jsstring where
  "EMAIL_REDACTED = js ''[EMAIL_REDACTED]''"

definition PHONE_REDACTED :: jsstring where
  "PHONE_REDACTED = js ''[PHONE_REDACTED]''"

definition redactEmails :: "jsstring \<Rightarrow> jsstring" where
  "redactEmails s = replaceAll email_re EMAIL_REDACTED s"

definition redactPhones :: "jsstring \<Rightarrow> jsstring" where
  "redactPhones s = replaceAll phone_re PHONE_REDACTED s"

definition redactPII :: "jsstring \<Rightarrow> jsstring" where
  "redactPII text_in = redactPhones (redactEmails text_in)"

subsection \<open>The key store: \<^verbatim>\<open>getPersistentKey\<close>, \<^verbatim>\<open>createSessionKey\<close>\<close>

text \<open>
  The object store \<^verbatim>\<open>keys\<close> of the database \<^verbatim>\<open>harmony-security\<close> is a map from
  key names to keys. What IndexedDB and \<^verbatim>\<open>generateKey\<close> do during one call is
  given by a \<open>key_env\<close>: the error of \<^verbatim>\<open>indexedDB.open\<close> or of \<^verbatim>\<open>store.get\<close> if
  they fail, the key that \<^verbatim>\<open>generateKey\<close> produces (\<open>None\<close> if it throws), and
  whether the write transaction completes.
\<close>

definition KEY_ID :: jsstring where
  "KEY_ID = js ''master-session-key''"

record 'k key_env =
  open_error :: "error option"
  get_error :: "error option"
  generated :: "'k option"
  put_completes :: bool

text \<open>
  A call works in two transactions with awaits between them. The first,
  \<open>key_read\<close>, opens the database and reads the entry \<open>KEY_ID\<close>: the result is
  the error of \<^verbatim>\<open>open\<close> or \<^verbatim>\<open>get\<close>, or \<^verbatim>\<open>request.result\<close> (\<open>None\<close> for
  \<^verbatim>\<open>undefined\<close>; a stored \<^verbatim>\<open>CryptoKey\<close> is an object and so never falsy).
\<close>

definition key_read :: "'k key_env \<Rightarrow> (jsstring \<rightharpoonup> 'k) \<Rightarrow> error + 'k option" where
  "key_read env keys =
     (case open_error env of
        Some e \<Rightarrow> Inl e
      | None \<Rightarrow>
          (case get_error env of
             Some e \<Rightarrow> Inl e
           | None \<Rightarrow> Inr (keys KEY_ID)))"

text \<open>
  The rest of the call, \<open>key_settle\<close>, acts on what was read and on the key store
  as it is by then: a key that was found is returned; otherwise a key is generated
  and written in a second transaction, and returned when that transaction
  completes. The promise stays pending when \<^verbatim>\<open>generateKey\<close> throws inside the
  \<^verbatim>\<open>onsuccess\<close> handler or when the write transaction does not complete: the
  source installs no handler that would reject it.
\<close>

definition key_settle ::
  "'k key_env \<Rightarrow> error + 'k option \<Rightarrow> (jsstring \<rightharpoonup> 'k) \<Rightarrow> 'k promise \<times> (jsstring \<rightharpoonup> 'k)" where
  "key_settle env found keys =
     (case found of
        Inl e \<Rightarrow> (Rejected e, keys)
      | Inr (Some k) \<Rightarrow> (Resolved k, keys)
      | Inr None \<Rightarrow>
          (case generated env of
             None \<Rightarrow> (Pending, keys)
           | Some newKey \<Rightarrow>
               if put_completes env
               then (Resolved newKey, keys(KEY_ID \<mapsto> newKey))
               else (Pending, keys)))"

text \<open>A call that no other call of the key store overlaps.\<close>

definition getPersistentKey ::
  "'k key_env \<Rightarrow> (jsstring \<rightharpoonup> 'k) \<Rightarrow> 'k promise \<times> (jsstring \<rightharpoonup> 'k)" where
  "getPersistentKey env keys = key_settle env (key_read env keys) keys"

definition createSessionKey ::
  "'k key_env \<Rightarrow> (jsstring \<rightharpoonup> 'k) \<Rightarrow> 'k promise \<times> (jsstring \<rightharpoonup> 'k)" where
  "createSessionKey env keys = getPersistentKey env keys"

text \<open>
  Two calls that overlap, as the one made by the constructor of
  \<^verbatim>\<open>VectorDbService\<close> and the one made by \<^verbatim>\<open>ChatInterface\<close> when it mounts:
  the second call reads while the first is still generating its key, so both read
  the key store as it was; the first call writes first. The result is how the two
  promises settle and the key store afterwards.
\<close>

definition overlapping_calls ::
  "'k key_env \<Rightarrow> 'k key_env \<Rightarrow> (jsstring \<rightharpoonup> 'k)
     \<Rightarrow> 'k promise \<times> 'k promise \<times> (jsstring \<rightharpoonup> 'k)" where
  "overlapping_calls env1 env2 keys =
     (let found1 = key_read env1 keys;
          found2 = key_read env2 keys;
          first_call = key_settle env1 found1 keys;
          second_call = key_settle env2 found2 (snd first_call)
      in (fst first_call, fst second_call, snd second_call))"

subsection \<open>The vector store: \<^verbatim>\<open>VectorDbService\<close>\<close>

datatype doc_kind = Chat | Memory

text \<open>\<^verbatim>\<open>VectorDocument\<close> of \<^verbatim>\<open>types.ts\<close>; \<open>doc_id\<close> and \<open>doc_type\<close> are its
  fields \<^verbatim>\<open>id\<close> and \<^verbatim>\<open>type\<close>.\<close>

record VectorDocument =
  doc_id :: jsstring
  content :: jsstring
  vector :: "real list"
  timestamp :: nat
  doc_type :: doc_kind

text \<open>An element of \<^verbatim>\<open>scoredDocs\<close>: \<^verbatim>\<open>{...doc, score}\<close>.\<close>

record ScoredDocument = VectorDocument +
  score :: real

text \<open>\<^verbatim>\<open>MemoryContext\<close> of \<^verbatim>\<open>types.ts\<close>, fields \<^verbatim>\<open>text\<close>, \<^verbatim>\<open>timestamp\<close>,
  \<^verbatim>\<open>score\<close>.\<close>

record MemoryContext =
  mc_text :: jsstring
  mc_timestamp :: nat
  mc_score :: real

definition dotProduct :: "real list \<Rightarrow> real list \<Rightarrow> real" where
  "dotProduct a b = fold (\<lambda>i sum. sum + a ! i * b ! i) [0..<length a] 0"

definition magnitude :: "real list \<Rightarrow> real" where
  "magnitude a = sqrt (fold (\<lambda>i sum. sum + a ! i * a ! i) [0..<length a] 0)"

definition cosineSimilarity :: "real list \<Rightarrow> real list \<Rightarrow> real" where
  "cosineSimilarity a b =
     (let magA = magnitude a; magB = magnitude b
      in if magA = 0 \<or> magB = 0 then 0 else dotProduct a b / (magA * magB))"

text \<open>
  The object store \<^verbatim>\<open>vectors\<close> is created with \<^verbatim>\<open>keyPath: 'id'\<close>: IndexedDB keeps
  its records in ascending order of that key (strings compare by code units),
  \<^verbatim>\<open>add\<close> fails with \<open>ConstraintError\<close> on a key that is present, and \<^verbatim>\<open>getAll\<close>
  returns the records in key order. The store is the list of its records in that
  order.
\<close>

type_synonym vector_store = "VectorDocument list"

definition idb_add :: "VectorDocument \<Rightarrow> vector_store \<Rightarrow> error + vector_store" where
  "idb_add d st =
     (if doc_id d \<in> set (map doc_id st) then Inl ConstraintError
      else Inr (insort_key doc_id d st))"

definition idb_getAll :: "vector_store \<Rightarrow> VectorDocument list" where
  "idb_getAll st = st"

definition idb_clear :: "vector_store \<Rightarrow> vector_store" where
  "idb_clear st = []"

text \<open>A sequence of \<^verbatim>\<open>add\<close> requests, each in its own transaction.\<close>

fun idb_add_all :: "VectorDocument list \<Rightarrow> vector_store \<Rightarrow> error + vector_store" where
  "idb_add_all [] st = Inr st"
| "idb_add_all (d # ds) st =
     (case idb_add d st of Inl e \<Rightarrow> Inl e | Inr st' \<Rightarrow> idb_add_all ds st')"

text \<open>The two promises the constructor stores.\<close>

record 'k VectorDbService =
  dbPromise :: "unit promise"
  keyPromise :: "'k promise"

definition new_VectorDbService ::
  "'k key_env \<Rightarrow> error option \<Rightarrow> (jsstring \<rightharpoonup> 'k) \<Rightarrow> 'k VectorDbService \<times> (jsstring \<rightharpoonup> 'k)" where
  "new_VectorDbService env db_open_error keys =
     (\<lparr>dbPromise = (case db_open_error of None \<Rightarrow> Resolved () | Some e \<Rightarrow> Rejected e),
       keyPromise = fst (getPersistentKey env keys)\<rparr>,
      snd (getPersistentKey env keys))"

text \<open>
  What the platform does during one call of \<^verbatim>\<open>addDocument\<close> or \<^verbatim>\<open>search\<close>:
  AES-GCM, the number of arguments the engine accepts in a call, the embedding
  provider (\<^verbatim>\<open>getEmbedding\<close> rethrows its error), whether the embedding settles
  before the encryption does, the nonce drawn by \<^verbatim>\<open>getRandomValues\<close>, the result
  of \<^verbatim>\<open>crypto.randomUUID()\<close> and of \<^verbatim>\<open>Date.now()\<close>, and the error of the
  IndexedDB request if it fails for a reason other than a duplicate key.
\<close>

record 'k call_env =
  crypto :: "'k subtle"
  max_arguments :: nat
  getEmbedding :: "jsstring \<Rightarrow> error + real list"
  embedding_first :: bool
  random_iv :: "byte list"
  randomUUID :: jsstring
  now :: nat
  tx_error :: "error option"

text \<open>
  \<^verbatim>\<open>Promise.all([a, b])\<close> of two promises that settle: it resolves with both
  values when both resolve and rejects with the error of the promise that rejects;
  when both reject, with the error of the one that settled first.
\<close>

definition Promise_all2 :: "bool \<Rightarrow> error + 'a \<Rightarrow> error + 'b \<Rightarrow> error + 'a \<times> 'b" where
  "Promise_all2 a_first a b =
     (case a of
        Inl ea \<Rightarrow> (case b of Inl eb \<Rightarrow> Inl (if a_first then ea else eb) | Inr y \<Rightarrow> Inl ea)
      | Inr x \<Rightarrow> (case b of Inl eb \<Rightarrow> Inl eb | Inr y \<Rightarrow> Inr (x, y)))"

text \<open>
  \<^verbatim>\<open>addDocument\<close> returns the way its promise settles and the store afterwards.
\<close>

definition addDocument ::
  "'k VectorDbService \<Rightarrow> 'k call_env \<Rightarrow> jsstring \<Rightarrow> doc_kind \<Rightarrow> vector_store
     \<Rightarrow> unit promise \<times> vector_store" where
  "addDocument svc env text_in ty st =
     (case dbPromise svc of
        Rejected e \<Rightarrow> (Rejected e, st)
      | Pending \<Rightarrow> (Pending, st)
      | Resolved db \<Rightarrow>
     (case keyPromise svc of
        Rejected e \<Rightarrow> (Rejected e, st)
      | Pending \<Rightarrow> (Pending, st)
      | Resolved key \<Rightarrow>
     (case Promise_all2 (embedding_first env)
             (getEmbedding env text_in)
             (encryptData (crypto env) (max_arguments env) (random_iv env) text_in key) of
        Inl e \<Rightarrow> (Rejected e, st)
      | Inr (vec, encryptedContent) \<Rightarrow>
          (let doc = \<lparr>doc_id = randomUUID env, content = encryptedContent, vector = vec,
                      timestamp = now env, doc_type = ty\<rparr>
           in case tx_error env of
                Some e \<Rightarrow> (Rejected e, st)
              | None \<Rightarrow>
                  (case idb_add doc st of
                     Inl e \<Rightarrow> (Rejected e, st)
                   | Inr st' \<Rightarrow> (Resolved (), st'))))))"

text \<open>\<^verbatim>\<open>xs.slice(0, n)\<close> for an integer \<open>n\<close>: a negative \<open>n\<close> counts from the end.\<close>

definition js_slice0 :: "int \<Rightarrow> 'a list \<Rightarrow> 'a list" where
  "js_slice0 n xs =
     (if n < 0 then take (nat (int (length xs) + n)) xs else take (nat n) xs)"

text \<open>
  \<^verbatim>\<open>scoredDocs\<close>, sorted by \<^verbatim>\<open>(a, b) => b.score - a.score\<close> (the sort of
  ECMAScript is stable) and cut by \<^verbatim>\<open>slice(0, limit)\<close>.
\<close>

definition topDocs :: "real list \<Rightarrow> int \<Rightarrow> VectorDocument list \<Rightarrow> ScoredDocument list" where
  "topDocs queryVector limit allDocs =
     (let scoredDocs =
            map (\<lambda>doc. \<lparr>doc_id = doc_id doc, content = content doc, vector = vector doc,
                         timestamp = timestamp doc, doc_type = doc_type doc,
                         score = cosineSimilarity queryVector (vector doc)\<rparr>) allDocs;
          sorted_docs = sort_key (\<lambda>d. - score d) scoredDocs
      in js_slice0 limit sorted_docs)"

text \<open>The callback of \<^verbatim>\<open>topDocs.map\<close>: its \<^verbatim>\<open>catch\<close> takes every error.\<close>

definition decryptDoc :: "'k subtle \<Rightarrow> 'k \<Rightarrow> ScoredDocument \<Rightarrow> MemoryContext" where
  "decryptDoc cr key doc =
     (case decryptData cr (content doc) key of
        Inr decrypted \<Rightarrow>
          \<lparr>mc_text = decrypted, mc_timestamp = timestamp doc, mc_score = score doc\<rparr>
      | Inl e \<Rightarrow>
          \<lparr>mc_text = js ''[Encrypted Memory]'', mc_timestamp = timestamp doc,
           mc_score = score doc\<rparr>)"

definition search ::
  "'k VectorDbService \<Rightarrow> 'k call_env \<Rightarrow> jsstring \<Rightarrow> int \<Rightarrow> vector_store
     \<Rightarrow> MemoryContext list promise" where
  "search svc env query limit st =
     (case dbPromise svc of
        Rejected e \<Rightarrow> Rejected e
      | Pending \<Rightarrow> Pending
      | Resolved db \<Rightarrow>
     (case keyPromise svc of
        Rejected e \<Rightarrow> Rejected e
      | Pending \<Rightarrow> Pending
      | Resolved key \<Rightarrow>
     (case getEmbedding env query of
        Inl e \<Rightarrow> Rejected e
      | Inr queryVector \<Rightarrow>
     (case tx_error env of
        Some e \<Rightarrow> Rejected e
      | None \<Rightarrow>
          (let allDocs = idb_getAll st
           in if allDocs = [] then Resolved []
              else Resolved (map (decryptDoc (crypto env) key)
                               (topDocs queryVector limit allDocs)))))))"

definition clear :: "'k VectorDbService \<Rightarrow> error option \<Rightarrow> vector_store \<Rightarrow> unit promise \<times> vector_store" where
  "clear svc clear_error st =
     (case dbPromise svc of
        Rejected e \<Rightarrow> (Rejected e, st)
      | Pending \<Rightarrow> (Pending, st)
      | Resolved db \<Rightarrow>
          (case clear_error of
             Some e \<Rightarrow> (Rejected e, st)
           | None \<Rightarrow> (Resolved (), idb_clear st)))"

subsection \<open>\<^verbatim>\<open>handleSend\<close>: what it reads from and writes to the memory\<close>

text \<open>
  The part of \<^verbatim>\<open>handleSend\<close> that touches the vector store. \<open>streamChat\<close> is the
  text the language model streams back for the redacted input and the context found
  (or its error). The result is \<^verbatim>\<open>contextDocs\<close> and the store once the two
  \<^verbatim>\<open>addDocument\<close> calls, which nobody awaits, have settled; they are started in
  this order and the model runs them in it. When \<^verbatim>\<open>search\<close> never settles
  nothing after it runs.
\<close>

record 'k send_env =
  search_env :: "'k call_env"
  streamChat :: "jsstring \<Rightarrow> MemoryContext list \<Rightarrow> error + jsstring"
  input_env :: "'k call_env"
  response_env :: "'k call_env"

definition handleSend ::
  "'k VectorDbService \<Rightarrow> 'k send_env \<Rightarrow> jsstring \<Rightarrow> bool \<Rightarrow> vector_store
     \<Rightarrow> MemoryContext list \<times> vector_store" where
  "handleSend svc env input isLoading st =
     (if list_all js_space input \<or> isLoading then ([], st)
      else
        (let cleanInput = redactPII input
         in case search svc (search_env env) cleanInput 3 st of
              Pending \<Rightarrow> ([], st)
            | found \<Rightarrow>
                (let contextDocs =
                       (case found of
                          Resolved docs \<Rightarrow> filter (\<lambda>doc. 0.65 < mc_score doc) docs
                        | _ \<Rightarrow> [])
                 in case streamChat env cleanInput contextDocs of
                      Inl e \<Rightarrow> (contextDocs, st)
                    | Inr fullResponse \<Rightarrow>
                        (let st1 = snd (addDocument svc (input_env env) cleanInput Chat st);
                             st2 = snd (addDocument svc (response_env env) fullResponse Chat st1)
                         in (contextDocs, st2)))))"

subsection \<open>Well-formed strings\<close>

text \<open>A string is well formed when every surrogate in it is half of a pair.\<close>

fun wellformed :: "jsstring \<Rightarrow> bool" where
  "wellformed [] = True"
| "wellformed [u] = (u < 0x10000 \<and> \<not> lead_surrogate u \<and> \<not> trail_surrogate u)"
| "wellformed (u # v # rest) =
     (if lead_surrogate u then trail_surrogate v \<and> wellformed rest
      else u < 0x10000 \<and> \<not> trail_surrogate u \<and> wellformed (v # rest))"

text \<open>The string does not begin with U+FEFF.\<close>

definition no_bom :: "jsstring \<Rightarrow> bool" where
  "no_bom s = (case s of [] \<Rightarrow> True | u # rest \<Rightarrow> u \<noteq> 0xFEFF)"

subsection \<open>A stand-in for AES-GCM\<close>

text \<open>
  Used to instantiate the theorems at concrete inputs: the ciphertext is the
  plaintext, the 16-byte tag repeats the key byte.
\<close>

definition test_subtle :: "byte subtle" where
  "test_subtle =
     \<lparr>subtle_encrypt = (\<lambda>k iv data. data @ replicate 16 k),
      subtle_decrypt = (\<lambda>k iv data.
         if 16 \<le> length data \<and> drop (length data - 16) data = replicate 16 k
         then Some (take (length data - 16) data) else None)\<rparr>"

section \<open>Concrete instances\<close>

text \<open>
  A service whose database is open and whose key is the byte 7, an environment whose
  embedding provider answers \<open>[1, 0]\<close> to every text and whose engine accepts 65535
  arguments in a call, one whose provider fails, and
  two stored documents: \<open>docA\<close> holds the encryption of \<open>hi\<close> under key 7 with a
  zero nonce, \<open>docB\<close> holds a blob that is not base64.
\<close>

definition test_service :: "byte VectorDbService" where
  "test_service = \<lparr>dbPromise = Resolved (), keyPromise = Resolved 7\<rparr>"

definition test_env :: "byte call_env" where
  "test_env =
     \<lparr>crypto = test_subtle, max_arguments = 65535, getEmbedding = (\<lambda>t. Inr [1, 0]),
      embedding_first = False, random_iv = replicate 12 0, randomUUID = js ''a'', now = 2,
      tx_error = None\<rparr>"

definition failing_env :: "byte call_env" where
  "failing_env = test_env\<lparr>getEmbedding := (\<lambda>t. Inl ProviderError)\<rparr>"

definition docA :: VectorDocument where
  "docA = \<lparr>doc_id = js ''a'', content = js ''AAAAAAAAAAAAAAAAaGkHBwcHBwcHBwcHBwcHBwcH'',
            vector = [0, 1], timestamp = 2, doc_type = Chat\<rparr>"

definition docB :: VectorDocument where
  "docB = \<lparr>doc_id = js ''b'', content = js ''!'', vector = [1, 0], timestamp = 1,
            doc_type = Chat\<rparr>"

text \<open>A call of the key store during which nothing fails and \<^verbatim>\<open>generateKey\<close>
  would produce \<open>g\<close>.\<close>

definition generating :: "'k \<Rightarrow> 'k key_env" where
  "generating g = \<lparr>open_error = None, get_error = None, generated = Some g, put_completes = True\<rparr>"

definition test_send_env :: "byte send_env" where
  "test_send_env =
     \<lparr>search_env = test_env, streamChat = (\<lambda>prompt docs. Inr (js ''ok'')),
      input_env = test_env\<lparr>randomUUID := js ''c''\<rparr>,
      response_env = test_env\<lparr>randomUUID := js ''d''\<rparr>\<rparr>"

section \<open>Notions used in the proofs\<close>

text \<open>The sextets and the padding that \<open>b64_encode\<close> produces, apart.\<close>

fun b64_sextets :: "nat list \<Rightarrow> nat list" where
  "b64_sextets [] = []"
| "b64_sextets [a] = [a div 4, (a mod 4) * 16]"
| "b64_sextets [a, b] = [a div 4, (a mod 4) * 16 + b div 16, (b mod 16) * 4]"
| "b64_sextets (a # b # c # rest) =
     [a div 4, (a mod 4) * 16 + b div 16, (b mod 16) * 4 + c div 64, c mod 64] @ b64_sextets rest"

fun b64_pad :: "nat list \<Rightarrow> nat list" where
  "b64_pad [] = []"
| "b64_pad [a] = [61, 61]"
| "b64_pad [a, b] = [61]"
| "b64_pad (a # b # c # rest) = b64_pad rest"

text \<open>A Unicode scalar value: a code point that is not a surrogate.\<close>

definition scalar :: "nat \<Rightarrow> bool" where
  "scalar c = (c < 0x110000 \<and> \<not> (0xD800 \<le> c \<and> c \<le> 0xDFFF))"

text \<open>
  The language of a pattern: the strings it can match. An iteration of \<open>Star\<close>
  that matches the empty string adds nothing to the language, so \<open>star\<close> only
  takes non-empty steps, as the matcher does.
\<close>

inductive_set star :: "nat list set \<Rightarrow> nat list set" for L :: "nat list set" where
  star_nil: "[] \<in> star L"
| star_step: "u \<in> L \<Longrightarrow> u \<noteq> [] \<Longrightarrow> v \<in> star L \<Longrightarrow> u @ v \<in> star L"

primrec lang :: "re \<Rightarrow> nat list set" where
  "lang Eps = {[]}"
| "lang (Cls p) = {[c] | c. p c}"
| "lang (Seq a b) = {u @ v | u v. u \<in> lang a \<and> v \<in> lang b}"
| "lang (Opt a) = insert [] (lang a)"
| "lang (Star a) = star (lang a)"

text \<open>No string of the language occurs in \<open>s\<close>.\<close>

definition noSub :: "re \<Rightarrow> nat list \<Rightarrow> bool" where
  "noSub r s = (\<forall>u\<in>lang r. \<not> sublist u s)"

text \<open>A replacement text that no match can touch: a match inside \<open>x @ tok @ y\<close>
  lies inside \<open>x\<close> or inside \<open>y\<close>.\<close>

definition avoids :: "re \<Rightarrow> nat list \<Rightarrow> bool" where
  "avoids r tok =
     (\<forall>u\<in>lang r. \<forall>x y. sublist u (x @ tok @ y) \<longrightarrow> sublist u x \<or> sublist u y)"

text \<open>The code units some class of the pattern accepts, and a class every match
  must go through.\<close>

primrec accepts :: "re \<Rightarrow> nat \<Rightarrow> bool" where
  "accepts Eps c = False"
| "accepts (Cls p) c = p c"
| "accepts (Seq a b) c = (accepts a c \<or> accepts b c)"
| "accepts (Opt a) c = accepts a c"
| "accepts (Star a) c = accepts a c"

primrec needs :: "(nat \<Rightarrow> bool) \<Rightarrow> re \<Rightarrow> bool" where
  "needs K Eps = False"
| "needs K (Cls p) = (\<forall>c. p c \<longrightarrow> K c)"
| "needs K (Seq a b) = (needs K a \<or> needs K b)"
| "needs K (Opt a) = False"
| "needs K (Star a) = False"

text \<open>No code unit of \<open>p\<close> starts a match in \<open>p @ s\<close>.\<close>

definition noStart :: "re \<Rightarrow> nat list \<Rightarrow> nat list \<Rightarrow> bool" where
  "noStart r p s = (\<forall>p1 p2. p = p1 @ p2 \<and> p2 \<noteq> [] \<longrightarrow> firstMatch r (p2 @ s) = None)"

text \<open>The pattern cannot consume the first code unit of \<open>v\<close>.\<close>

definition shut :: "re \<Rightarrow> nat list \<Rightarrow> bool" where
  "shut r v = (v = [] \<or> \<not> accepts r (hd v))"

text \<open>
  Wherever \<open>r\<close> matches in \<open>x\<close>, \<open>r'\<close> matches at none of the positions that
  match covers: for every suffix \<open>s\<close> of \<open>x\<close> at whose start \<open>r\<close> matches \<open>l\<close>
  code units, \<open>r'\<close> has no match at the start of \<open>drop j s\<close> for \<open>j < l\<close>.
\<close>

definition uncovered :: "re \<Rightarrow> re \<Rightarrow> jsstring \<Rightarrow> bool" where
  "uncovered r r' x =
     list_all (\<lambda>s. case firstMatch r s of
                      None \<Rightarrow> True
                    | Some l \<Rightarrow> list_all (\<lambda>j. firstMatch r' (drop j s) = None) [0..<l])
       (suffixes x)"

text \<open>No phone match starts inside an email match of \<open>x\<close> and no email match
  starts inside a phone match.\<close>

definition independent :: "jsstring \<Rightarrow> bool" where
  "independent x = (uncovered email_re phone_re x \<and> uncovered phone_re email_re x)"

section \<open>Base64: decoding what was encoded\<close>

lemma b64_encode_split: "b64_encode bs = map b64_char (b64_sextets bs) @ b64_pad bs"
  by (induction bs rule: b64_encode.induct) simp_all

lemma b64_value_char: "n < 64 \<Longrightarrow> b64_value (b64_char n) = Some n"
  by (auto simp: b64_value_def b64_char_def)

lemma b64_char_not_ws: "n < 64 \<Longrightarrow> \<not> ascii_whitespace (b64_char n)"
  by (auto simp: ascii_whitespace_def b64_char_def)

lemma b64_char_not_pad: "n < 64 \<Longrightarrow> b64_char n \<noteq> 61"
  by (auto simp: b64_char_def)

lemma b64_sextets_bound: "\<forall>a\<in>set bs. a < 256 \<Longrightarrow> \<forall>n\<in>set (b64_sextets bs). n < 64"
  by (induction bs rule: b64_sextets.induct) auto

lemma b64_pad_cases: "b64_pad bs = [] \<or> b64_pad bs = [61] \<or> b64_pad bs = [61, 61]"
  by (induction bs rule: b64_pad.induct) simp_all

lemma b64_length: "(length (b64_sextets bs) + length (b64_pad bs)) mod 4 = 0"
  by (induction bs rule: b64_sextets.induct) simp_all

lemma b64_sextets_mod: "length (b64_sextets bs) mod 4 \<noteq> 1"
  by (induction bs rule: b64_sextets.induct) simp_all

lemma b64_pad_sextets: "b64_pad bs \<noteq> [] \<Longrightarrow> b64_sextets bs \<noteq> []"
  by (induction bs rule: b64_sextets.induct) simp_all

lemma b64_decode_sextets:
  "\<forall>a\<in>set bs. a < 256 \<Longrightarrow> b64_decode (b64_sextets bs) = bs"
proof (induction bs rule: b64_sextets.induct)
  case 1
  then show ?case by simp
next
  case (2 a)
  then show ?case by simp
next
  case (3 a b)
  then have "b div 16 < 16" by simp arith
  then show ?case by simp
next
  case (4 a b c rest)
  then have "b div 16 < 16" "c div 64 < 4" by (simp, arith)+
  with 4 show ?case by simp
qed

lemma strip_padding_encode:
  assumes "\<forall>n\<in>set ss. n < 64" "p = [] \<or> p = [61] \<or> p = [61, 61]"
    "(length ss + length p) mod 4 = 0" "p \<noteq> [] \<Longrightarrow> ss \<noteq> []"
  shows "strip_padding (map b64_char ss @ p) = map b64_char ss"
proof -
  have nl: "ss \<noteq> [] \<Longrightarrow> last (map b64_char ss) \<noteq> 61"
    using assms(1) by (simp add: last_map b64_char_not_pad)
  from assms(2) consider "p = []" | "p = [61]" | "p = [61, 61]" by blast
  then show ?thesis
  proof cases
    case 1
    then show ?thesis using nl by (cases "ss = []") (simp_all add: strip_padding_def)
  next
    case 2
    with assms(4) have "ss \<noteq> []" by simp
    with 2 assms(3) nl show ?thesis by (simp add: strip_padding_def butlast_append)
  next
    case 3
    with assms(4) have "ss \<noteq> []" by simp
    with 3 assms(3) nl show ?thesis by (simp add: strip_padding_def butlast_append)
  qed
qed

lemma atob_b64_encode:
  assumes "\<forall>a\<in>set bs. a < 256"
  shows "atob (b64_encode bs) = Inr bs"
proof -
  let ?ss = "b64_sextets bs"
  have b: "\<forall>n\<in>set ?ss. n < 64" using assms by (rule b64_sextets_bound)
  have fa: "\<forall>c\<in>set (map b64_char ?ss). \<not> ascii_whitespace c"
    using b by (auto simp: b64_char_not_ws)
  have fp: "\<forall>c\<in>set (b64_pad bs). \<not> ascii_whitespace c"
    using b64_pad_cases[of bs] by (auto simp: ascii_whitespace_def)
  have f: "filter (\<lambda>c. \<not> ascii_whitespace c) (b64_encode bs) = b64_encode bs"
    unfolding b64_encode_split filter_append using fa fp by (simp add: filter_id_conv)
  have s: "strip_padding (b64_encode bs) = map b64_char ?ss"
    unfolding b64_encode_split
    by (rule strip_padding_encode[OF b b64_pad_cases b64_length b64_pad_sextets])
  have v: "map (\<lambda>c. the (b64_value c)) (map b64_char ?ss) = ?ss"
    using b by (simp add: map_idI b64_value_char)
  have e: "\<not> list_ex (\<lambda>c. b64_value c = None) (map b64_char ?ss)"
    using b by (auto simp: list_ex_iff b64_value_char)
  show ?thesis
    unfolding atob_def f s Let_def using e v b64_sextets_mod[of bs] b64_decode_sextets[OF assms]
    by simp
qed

lemma btoa_bytes: "btoa (map unat (bs :: byte list)) = Inr (b64_encode (map unat bs))"
proof -
  have "\<forall>c\<in>set (map unat bs). c < 256"
    using unsigned_less[where 'b = 8] by (auto simp: )
  then show ?thesis by (auto simp: btoa_def list_ex_iff)
qed

section \<open>UTF-8: decoding what was encoded\<close>

lemma dec1:
  "c < 128 \<Longrightarrow> utf8_dec 0 0 0x80 0xBF (c # rest) = c # utf8_dec 0 0 0x80 0xBF rest"
  by simp

lemma mod_shift: "d < k \<Longrightarrow> (k * q + d) mod k = (d::nat)"
  by simp

lemma lead2_mod: "d < 32 \<Longrightarrow> (192 + d) mod 32 = (d::nat)"
  using mod_shift[of d 32 6] by simp

lemma cont_mod: "m < 64 \<Longrightarrow> (128 + m) mod 64 = (m::nat)"
  using mod_shift[of m 64 2] by simp

lemma lead3_mod: "d < 16 \<Longrightarrow> (224 + d) mod 16 = (d::nat)"
  using mod_shift[of d 16 14] by simp

lemma lead4_mod: "d < 8 \<Longrightarrow> (240 + d) mod 8 = (d::nat)"
  using mod_shift[of d 8 30] by simp

lemma dec2:
  assumes "2 \<le> d" "d < 32" "m < 64"
  shows "utf8_dec 0 0 0x80 0xBF ((0xC0 + d) # (0x80 + m) # rest)
         = (d * 64 + m) # utf8_dec 0 0 0x80 0xBF rest"
  using assms by (simp add: lead2_mod cont_mod)

lemma dec3:
  assumes "d1 < 16" "d2 < 64" "m < 64" "d1 = 0 \<Longrightarrow> 32 \<le> d2" "d1 = 13 \<Longrightarrow> d2 < 32"
  shows "utf8_dec 0 0 0x80 0xBF ((0xE0 + d1) # (0x80 + d2) # (0x80 + m) # rest)
         = ((d1 * 64 + d2) * 64 + m) # utf8_dec 0 0 0x80 0xBF rest"
  using assms by (simp add: lead3_mod cont_mod) (use assms in force)

lemma dec4:
  assumes "d1 < 5" "d2 < 64" "d3 < 64" "m < 64" "d1 = 0 \<Longrightarrow> 16 \<le> d2" "d1 = 4 \<Longrightarrow> d2 < 16"
  shows "utf8_dec 0 0 0x80 0xBF ((0xF0 + d1) # (0x80 + d2) # (0x80 + d3) # (0x80 + m) # rest)
         = (((d1 * 64 + d2) * 64 + d3) * 64 + m) # utf8_dec 0 0 0x80 0xBF rest"
  using assms by (simp add: lead4_mod cont_mod) (use assms in force)

lemma enc2:
  assumes "128 \<le> c" "c < 2048"
  shows "utf8_dec 0 0 0x80 0xBF (utf8_encode_cp c @ rest) = c # utf8_dec 0 0 0x80 0xBF rest"
proof -
  have d: "2 \<le> c div 64" "c div 64 < 32" using assms by arith+
  have "utf8_encode_cp c @ rest = (0xC0 + c div 64) # (0x80 + c mod 64) # rest"
    using assms by (simp add: utf8_encode_cp_def)
  with dec2[OF d, of "c mod 64" rest] show ?thesis by simp
qed

lemma enc3:
  assumes "2048 \<le> c" "c < 65536" "\<not> (0xD800 \<le> c \<and> c \<le> 0xDFFF)"
  shows "utf8_dec 0 0 0x80 0xBF (utf8_encode_cp c @ rest) = c # utf8_dec 0 0 0x80 0xBF rest"
proof -
  define e where "e = c div 64"
  define m where "m = c mod 64"
  define d1 where "d1 = e div 64"
  define d2 where "d2 = e mod 64"
  have c: "c = e * 64 + m" "m < 64" by (simp_all add: e_def m_def)
  have e: "e = d1 * 64 + d2" "d2 < 64" by (simp_all add: d1_def d2_def)
  have q: "c div 4096 = d1" by (simp add: d1_def e_def div_mult2_eq[symmetric])
  have d: "d1 < 16" "d2 < 64" "m < 64" "d1 = 0 \<Longrightarrow> 32 \<le> d2" "d1 = 13 \<Longrightarrow> d2 < 32"
    using assms c e by linarith+
  have "utf8_encode_cp c @ rest = (0xE0 + d1) # (0x80 + d2) # (0x80 + m) # rest"
    using assms by (simp add: utf8_encode_cp_def q) (simp add: d2_def e_def m_def)
  moreover have "(d1 * 64 + d2) * 64 + m = c"
    using c e by simp
  ultimately show ?thesis using dec3[OF d, of rest] by simp
qed

lemma enc4:
  assumes "65536 \<le> c" "c < 1114112"
  shows "utf8_dec 0 0 0x80 0xBF (utf8_encode_cp c @ rest) = c # utf8_dec 0 0 0x80 0xBF rest"
proof -
  define e where "e = c div 64"
  define m where "m = c mod 64"
  define f where "f = e div 64"
  define d3 where "d3 = e mod 64"
  define d1 where "d1 = f div 64"
  define d2 where "d2 = f mod 64"
  have c: "c = e * 64 + m" "m < 64" by (simp_all add: e_def m_def)
  have e: "e = f * 64 + d3" "d3 < 64" by (simp_all add: f_def d3_def)
  have f: "f = d1 * 64 + d2" "d2 < 64" by (simp_all add: d1_def d2_def)
  have q: "c div 4096 = f" "c div 262144 = d1"
    by (simp_all add: e_def f_def d1_def div_mult2_eq[symmetric])
  have d: "d1 < 5" "d2 < 64" "d3 < 64" "m < 64" "d1 = 0 \<Longrightarrow> 16 \<le> d2" "d1 = 4 \<Longrightarrow> d2 < 16"
    using assms c e f by linarith+
  have "utf8_encode_cp c @ rest =
        (0xF0 + d1) # (0x80 + d2) # (0x80 + d3) # (0x80 + m) # rest"
    using assms by (simp add: utf8_encode_cp_def q) (simp add: d2_def d3_def e_def m_def)
  moreover have "((d1 * 64 + d2) * 64 + d3) * 64 + m = c"
    using c e f by simp
  ultimately show ?thesis using dec4[OF d, of rest] by simp
qed

lemma utf8_dec_enc:
  assumes "scalar c"
  shows "utf8_dec 0 0 0x80 0xBF (utf8_encode_cp c @ rest) = c # utf8_dec 0 0 0x80 0xBF rest"
proof -
  consider "c < 128" | "128 \<le> c" "c < 2048" | "2048 \<le> c" "c < 65536" | "65536 \<le> c"
    by linarith
  then show ?thesis
  proof cases
    case 1
    then show ?thesis by (simp add: utf8_encode_cp_def)
  next
    case 2
    then show ?thesis by (rule enc2)
  next
    case 3
    with assms show ?thesis by (intro enc3) (simp_all add: scalar_def)
  next
    case 4
    with assms show ?thesis by (intro enc4) (simp_all add: scalar_def)
  qed
qed

lemma utf8_encode_cp_bytes:
  assumes "c < 1114112"
  shows "\<forall>b\<in>set (utf8_encode_cp c). b < 256"
proof -
  have m: "x mod 64 < 64" for x :: nat by simp
  have 1: "c < 2048 \<Longrightarrow> c div 64 < 32" by (rule less_mult_imp_div_less) simp
  have 2: "c < 65536 \<Longrightarrow> c div 4096 < 16" by (rule less_mult_imp_div_less) simp
  have 3: "c div 262144 < 5" using assms by (intro less_mult_imp_div_less) simp
  show ?thesis
    unfolding utf8_encode_cp_def
    using 1 2 3 m[of c] m[of "c div 64"] m[of "c div 4096"] by auto
qed

lemma utf8_dec_concat:
  "\<forall>c\<in>set cs. scalar c \<Longrightarrow>
     utf8_dec 0 0 0x80 0xBF (concat (map utf8_encode_cp cs)) = cs"
  by (induction cs) (simp_all add: utf8_dec_enc)

lemma pair_scalar:
  assumes "lead_surrogate u" "trail_surrogate v"
  shows "scalar (0x10000 + (u - 0xD800) * 0x400 + (v - 0xDC00))"
    and "utf16_encode_cp (0x10000 + (u - 0xD800) * 0x400 + (v - 0xDC00)) = [u, v]"
    and "0x10000 + (u - 0xD800) * 0x400 + (v - 0xDC00) \<noteq> 0xFEFF"
proof -
  define a where "a = u - 0xD800"
  define b where "b = v - 0xDC00"
  have a: "u = 0xD800 + a" "a < 0x400"
    using assms(1) by (auto simp: a_def lead_surrogate_def)
  have b: "v = 0xDC00 + b" "b < 0x400"
    using assms(2) by (auto simp: b_def trail_surrogate_def)
  have c: "0x10000 + (u - 0xD800) * 0x400 + (v - 0xDC00) = 0x10000 + (a * 0x400 + b)"
    by (simp add: a_def b_def)
  show "scalar (0x10000 + (u - 0xD800) * 0x400 + (v - 0xDC00))"
    unfolding c scalar_def using a b by simp
  show "utf16_encode_cp (0x10000 + (u - 0xD800) * 0x400 + (v - 0xDC00)) = [u, v]"
    unfolding c utf16_encode_cp_def using a b by simp
  show "0x10000 + (u - 0xD800) * 0x400 + (v - 0xDC00) \<noteq> 0xFEFF"
    unfolding c by simp
qed

lemma to_scalars_wellformed:
  "wellformed s \<Longrightarrow>
     (\<forall>c\<in>set (to_scalars s). scalar c)
     \<and> concat (map utf16_encode_cp (to_scalars s)) = s
     \<and> (no_bom s \<longrightarrow> strip_bom (to_scalars s) = to_scalars s)"
proof (induction s rule: to_scalars.induct)
  case 1
  then show ?case by simp
next
  case (2 u)
  then show ?case
    by (auto simp: scalar_def utf16_encode_cp_def lead_surrogate_def trail_surrogate_def no_bom_def)
next
  case (3 u v rest)
  show ?case
  proof (cases "lead_surrogate u")
    case True
    with "3.prems" have t: "trail_surrogate v" and w: "wellformed rest" by simp_all
    from "3.IH"(1) True t w have ih: "\<forall>c\<in>set (to_scalars rest). scalar c"
      "concat (map utf16_encode_cp (to_scalars rest)) = rest" by simp_all
    from True t ih pair_scalar[OF True t] show ?thesis by simp
  next
    case False
    with "3.prems" have u: "u < 0x10000" "\<not> trail_surrogate u" and w: "wellformed (v # rest)"
      by simp_all
    from "3.IH"(2) False w have ih: "\<forall>c\<in>set (to_scalars (v # rest)). scalar c"
      "concat (map utf16_encode_cp (to_scalars (v # rest))) = v # rest" by simp_all
    have su: "scalar u" using u False
      by (auto simp: scalar_def lead_surrogate_def trail_surrogate_def)
    have eu: "utf16_encode_cp u = [u]" using u by (simp add: utf16_encode_cp_def)
    from False u ih su eu show ?thesis by (simp add: no_bom_def)
  qed
qed

lemma scalar_bound: "scalar c \<Longrightarrow> c < 1114112"
  by (simp add: scalar_def)

lemma unat_of_nat_bytes:
  "\<forall>b\<in>set bs. b < 256 \<Longrightarrow> map unat (map of_nat bs :: byte list) = bs"
  by (induction bs) (simp_all add: unat_of_nat)

lemma concat_bytes:
  "\<forall>c\<in>set cs. scalar c \<Longrightarrow> \<forall>b\<in>set (concat (map utf8_encode_cp cs)). b < 256"
  using utf8_encode_cp_bytes scalar_bound by auto

lemma text_roundtrip:
  assumes "wellformed s" "no_bom s"
  shows "TextDecoder_decode (TextEncoder_encode s) = s"
proof -
  from to_scalars_wellformed[OF assms(1)] assms(2)
  have sc: "\<forall>c\<in>set (to_scalars s). scalar c"
    and u16: "concat (map utf16_encode_cp (to_scalars s)) = s"
    and bom: "strip_bom (to_scalars s) = to_scalars s" by simp_all
  have "map unat (TextEncoder_encode s) = concat (map utf8_encode_cp (to_scalars s))"
    unfolding TextEncoder_encode_def by (rule unat_of_nat_bytes) (rule concat_bytes[OF sc])
  then have "utf8_dec 0 0 0x80 0xBF (map unat (TextEncoder_encode s)) = to_scalars s"
    by (simp add: utf8_dec_concat[OF sc])
  then show ?thesis by (simp add: TextDecoder_decode_def bom u16)
qed

section \<open>Decrypting what was encrypted\<close>

lemma of_nat_unat_bytes: "map of_nat (map unat bs) = (bs :: byte list)"
  by (induction bs) simp_all

lemma unat_byte: "\<forall>a\<in>set (map unat (bs :: byte list)). a < 256"
  using unsigned_less[where 'b = 8 and 'a = nat] by auto

text \<open>\<open>encryptData\<close> fails only with \<open>RangeError\<close>: \<^verbatim>\<open>btoa\<close> never fails on
  bytes.\<close>

lemma encryptData_cases:
  "encryptData cr n iv p k =
     (if n < length (iv @ subtle_encrypt cr k iv (TextEncoder_encode p)) then Inl RangeError
      else Inr (b64_encode (map unat (iv @ subtle_encrypt cr k iv (TextEncoder_encode p)))))"
  by (simp add: encryptData_def Let_def btoa_bytes del: map_append)

lemma encryptData_Inr:
  "encryptData cr n iv p k = Inr blob \<Longrightarrow>
     blob = b64_encode (map unat (iv @ subtle_encrypt cr k iv (TextEncoder_encode p)))"
  unfolding encryptData_cases by (simp split: if_splits)

lemma encryptData_error: "encryptData cr n iv p k = Inl e \<Longrightarrow> e = RangeError"
  unfolding encryptData_cases by (simp split: if_splits)

lemma decrypt_encrypt:
  assumes "subtle_correct cr" "length iv = 12" "encryptData cr n iv p k = Inr blob"
  shows "decryptData cr blob k = Inr (TextDecoder_decode (TextEncoder_encode p))"
proof -
  let ?c = "iv @ subtle_encrypt cr k iv (TextEncoder_encode p)"
  have a: "atob (b64_encode (map unat ?c)) = Inr (map unat ?c)"
    by (rule atob_b64_encode) (rule unat_byte)
  have d: "subtle_decrypt cr k iv (subtle_encrypt cr k iv (TextEncoder_encode p))
           = Some (TextEncoder_encode p)"
    using assms(1) by (simp add: subtle_correct_def)
  show ?thesis
    unfolding encryptData_Inr[OF assms(3)] decryptData_def
    by (simp only: a sum.case of_nat_unat_bytes Let_def) (simp add: assms(2) d)
qed

text \<open>UTF-8 takes at least one byte for each code unit.\<close>

lemma length_utf8_encode_cp:
  "1 \<le> length (utf8_encode_cp c)" "0x10000 \<le> c \<Longrightarrow> length (utf8_encode_cp c) = 4"
  by (simp_all add: utf8_encode_cp_def)

lemma length_to_scalars_bytes:
  "length s \<le> length (concat (map utf8_encode_cp (to_scalars s)))"
proof (induction s rule: to_scalars.induct)
  case 1
  show ?case by simp
next
  case (2 u)
  show ?case using length_utf8_encode_cp(1) by simp
next
  case (3 u v rest)
  show ?case
  proof (cases "lead_surrogate u \<and> trail_surrogate v")
    case True
    have "length (utf8_encode_cp (0x10000 + (u - 0xD800) * 0x400 + (v - 0xDC00))) = 4"
      by (rule length_utf8_encode_cp(2)) simp
    with "3.IH"(1)[OF True] True show ?thesis by simp
  next
    case False
    let ?c = "if lead_surrogate u \<or> trail_surrogate u then 0xFFFD else u"
    from False have t: "to_scalars (u # v # rest) = ?c # to_scalars (v # rest)" by simp
    from "3.IH"(2)[OF False] length_utf8_encode_cp(1)[of ?c]
    show ?thesis unfolding t by simp
  qed
qed

lemma length_TextEncoder_encode: "length s \<le> length (TextEncoder_encode s)"
  using length_to_scalars_bytes[of s] by (simp add: TextEncoder_encode_def)

lemma encryptData_long:
  assumes "\<And>d. length d \<le> length (subtle_encrypt cr k iv d)" "n < length iv + length p"
  shows "encryptData cr n iv p k = Inl RangeError"
proof -
  from assms(1)[of "TextEncoder_encode p"] length_TextEncoder_encode[of p] assms(2)
  have "n < length (iv @ subtle_encrypt cr k iv (TextEncoder_encode p))" by simp
  then show ?thesis unfolding encryptData_cases by simp
qed

section \<open>Evaluation at concrete inputs\<close>

lemma replicate_num: "replicate (numeral n) x = x # replicate (pred_numeral n) x"
  by (simp add: numeral_eq_Suc)

lemmas b64_ev = atob_def btoa_def strip_padding_def ascii_whitespace_def b64_value_def b64_char_def js_def replicate_num

section \<open>The matcher and the language of a pattern\<close>

lemma star_iter_sound:
  assumes f: "\<And>s v. v \<in> set (f s) \<Longrightarrow> \<exists>u\<in>L. s = u @ v"
  shows "v \<in> set (star_iter f n s) \<Longrightarrow> \<exists>u\<in>star L. s = u @ v"
proof (induction n arbitrary: s v)
  case 0
  then show ?case by (auto intro: star.star_nil)
next
  case (Suc n)
  from Suc.prems consider "v = s"
    | w where "w \<in> set (f s)" "length w < length s" "v \<in> set (star_iter f n w)"
    by (auto split: if_splits)
  then show ?case
  proof cases
    case 1
    then show ?thesis by (auto intro: star.star_nil)
  next
    case 2
    from f[OF 2(1)] obtain u1 where u1: "u1 \<in> L" "s = u1 @ w" by blast
    from Suc.IH[OF 2(3)] obtain u2 where u2: "u2 \<in> star L" "w = u2 @ v" by blast
    from u1 2(2) have "u1 \<noteq> []" by auto
    with u1 u2 have "u1 @ u2 \<in> star L" by (auto intro: star.star_step)
    with u1 u2 show ?thesis by auto
  qed
qed

lemma matches_sound: "v \<in> set (matches r s) \<Longrightarrow> \<exists>u\<in>lang r. s = u @ v"
proof (induction r arbitrary: s v)
  case Eps
  then show ?case by simp
next
  case (Cls p)
  then show ?case by (auto split: list.splits if_splits)
next
  case (Seq a b)
  from Seq.prems obtain w where w: "w \<in> set (matches a s)" "v \<in> set (matches b w)"
    by auto
  from Seq.IH(1)[OF w(1)] Seq.IH(2)[OF w(2)] show ?case
    by fastforce
next
  case (Opt a)
  then show ?case by auto
next
  case (Star a)
  then show ?case
    using star_iter_sound[of "matches a" "lang a" v "length s" s] by auto
qed

lemma star_iter_complete:
  assumes f: "\<And>u v. u \<in> L \<Longrightarrow> v \<in> set (f (u @ v))"
  shows "u \<in> star L \<Longrightarrow> length (u @ v) \<le> n \<Longrightarrow> v \<in> set (star_iter f n (u @ v))"
proof (induction u arbitrary: n rule: star.induct)
  case star_nil
  then show ?case by (cases n) auto
next
  case (star_step u1 u2)
  from star_step.prems star_step.hyps(2) obtain m where n: "n = Suc m"
    by (cases n) auto
  have a: "u2 @ v \<in> set (f (u1 @ u2 @ v))" using f[OF star_step.hyps(1)] .
  have b: "length (u2 @ v) < length (u1 @ u2 @ v)" using star_step.hyps(2) by simp
  have "length (u2 @ v) \<le> m" using star_step.prems n star_step.hyps(2) by (cases u1) auto
  then have c: "v \<in> set (star_iter f m (u2 @ v))" by (rule star_step.IH)
  show ?case unfolding n using a b c by (simp del: length_append) (use b in force)
qed

lemma matches_complete: "u \<in> lang r \<Longrightarrow> v \<in> set (matches r (u @ v))"
proof (induction r arbitrary: u v)
  case Eps
  then show ?case by simp
next
  case (Cls p)
  then show ?case by auto
next
  case (Seq a b)
  then show ?case by fastforce
next
  case (Opt a)
  then show ?case by (cases "u = []") auto
next
  case (Star a)
  then show ?case
    using star_iter_complete[of "lang a" "matches a" u v "length (u @ v)"] by simp
qed

lemma firstMatch_None_iff: "firstMatch r s = None \<longleftrightarrow> (\<forall>u\<in>lang r. \<not> prefix u s)"
proof
  assume "firstMatch r s = None"
  then have e: "matches r s = []" by (simp add: firstMatch_def split: list.splits)
  show "\<forall>u\<in>lang r. \<not> prefix u s"
  proof (intro ballI notI)
    fix u assume "u \<in> lang r" "prefix u s"
    then obtain v where "s = u @ v" by (auto simp: prefix_def)
    with matches_complete[OF \<open>u \<in> lang r\<close>, of v] e show False by simp
  qed
next
  assume a: "\<forall>u\<in>lang r. \<not> prefix u s"
  have "matches r s = []"
  proof (cases "matches r s")
    case Nil then show ?thesis .
  next
    case (Cons v vs)
    then have "v \<in> set (matches r s)" by simp
    from matches_sound[OF this] a show ?thesis by (auto simp: prefix_def)
  qed
  then show "firstMatch r s = None" by (simp add: firstMatch_def)
qed

lemma firstMatch_Some: 
  assumes "firstMatch r s = Some l"
  shows "l \<le> length s \<and> take l s \<in> lang r"
proof -
  from assms obtain v vs where m: "matches r s = v # vs" and l: "l = length s - length v"
    by (auto simp: firstMatch_def split: list.splits)
  then have "v \<in> set (matches r s)" by simp
  from matches_sound[OF this] obtain u where "u \<in> lang r" "s = u @ v" by blast
  with l show ?thesis by simp
qed

lemma matchFree_iff: "matchFree r s \<longleftrightarrow> noSub r s"
  unfolding matchFree_def noSub_def list_all_iff
  by (auto simp: firstMatch_None_iff sublist_altdef')

lemma noSub_sublist: "noSub r s \<Longrightarrow> sublist t s \<Longrightarrow> noSub r t"
  unfolding noSub_def by (meson sublist_order.order.trans)

lemma matchFree_fixed: "matchFree r s \<Longrightarrow> replaceAll r tok s = s"
proof (induction s)
  case Nil
  then show ?case by (simp add: matchFree_def)
next
  case (Cons c cs)
  from Cons.prems have "firstMatch r (c # cs) = None" "matchFree r cs"
    by (auto simp: matchFree_def)
  with Cons.IH show ?case by simp
qed

section \<open>Replacement tokens and matches\<close>

lemma sublist_skip:
  assumes "c \<notin> set u" "sublist u (a @ c # b)"
  shows "sublist u a \<or> sublist u b"
proof -
  from assms(2) consider "sublist u a" | "sublist u (c # b)"
    | u1 u2 where "u = u1 @ u2" "suffix u1 a" "prefix u2 (c # b)"
    by (auto simp: sublist_append)
  then show ?thesis
  proof cases
    case 1 then show ?thesis by simp
  next
    case 2
    then have "prefix u (c # b) \<or> sublist u b" by (simp add: sublist_Cons_right)
    then show ?thesis
    proof
      assume "prefix u (c # b)"
      with assms(1) have "u = []" by (cases u) auto
      then show ?thesis by simp
    qed simp
  next
    case 3
    from 3(3) assms(1) 3(1) have "u2 = []" by (cases u2) auto
    with 3 show ?thesis by auto
  qed
qed

lemma avoidsI:
  assumes br: "\<And>u. u \<in> lang r \<Longrightarrow> 91 \<notin> set u \<and> 93 \<notin> set u"
    and mid: "\<And>u. u \<in> lang r \<Longrightarrow> \<not> sublist u mid"
  shows "avoids r (91 # mid @ [93])"
  unfolding avoids_def
proof (intro ballI allI impI)
  fix u x y
  assume u: "u \<in> lang r" and s: "sublist u (x @ (91 # mid @ [93]) @ y)"
  from br[OF u] have n1: "91 \<notin> set u" and n2: "93 \<notin> set u" by simp_all
  from s have "sublist u (x @ 91 # (mid @ 93 # y))" by simp
  from sublist_skip[OF n1 this] have "sublist u x \<or> sublist u (mid @ 93 # y)" .
  then show "sublist u x \<or> sublist u y"
  proof
    assume "sublist u x"
    then show ?thesis by simp
  next
    assume "sublist u (mid @ 93 # y)"
    from sublist_skip[OF n2 this] have "sublist u mid \<or> sublist u y" .
    with mid[OF u] show ?thesis by simp
  qed
qed

lemma star_chars: "u \<in> star L \<Longrightarrow> (\<And>w. w \<in> L \<Longrightarrow> \<forall>c\<in>set w. P c) \<Longrightarrow> \<forall>c\<in>set u. P c"
  by (induction rule: star.induct) auto

lemma lang_chars: "u \<in> lang r \<Longrightarrow> \<forall>c\<in>set u. accepts r c"
proof (induction r arbitrary: u)
  case (Star a)
  then show ?case using star_chars[of u "lang a" "accepts a"] by auto
qed auto

lemma Exactly_numeral: "Exactly (numeral k) a = Seq a (Exactly (pred_numeral k) a)"
  by (simp add: numeral_eq_Suc)

lemmas class_defs = digit_def alpha_def email_local_def email_domain_def js_space_def
  separator_def js_def

lemmas re_defs = email_re_def phone_re_def Plus_def AtLeast_def OneOrTwo_def Chr_def
  Exactly_numeral

lemma lang_needs: "needs K r \<Longrightarrow> u \<in> lang r \<Longrightarrow> \<exists>c\<in>set u. K c"
  by (induction r arbitrary: u) fastforce+

lemma needs_email: "needs (\<lambda>c. c = 64) email_re"
  by (simp add: re_defs)

lemma needs_phone: "needs digit phone_re"
  by (simp add: re_defs)

lemma email_has_at: "u \<in> lang email_re \<Longrightarrow> 64 \<in> set u"
  using lang_needs[OF needs_email] by auto

lemma phone_has_digit: "u \<in> lang phone_re \<Longrightarrow> \<exists>c\<in>set u. digit c"
  using lang_needs[OF needs_phone] by auto

lemma accepts_email: "\<not> accepts email_re 91" "\<not> accepts email_re 93"
  by (simp_all add: re_defs class_defs)

lemma accepts_phone: "\<not> accepts phone_re 91" "\<not> accepts phone_re 93"
  by (simp_all add: re_defs class_defs)

lemma email_no_bracket: "u \<in> lang email_re \<Longrightarrow> 91 \<notin> set u \<and> 93 \<notin> set u"
  using lang_chars[of u email_re] accepts_email by blast

lemma phone_no_bracket: "u \<in> lang phone_re \<Longrightarrow> 91 \<notin> set u \<and> 93 \<notin> set u"
  using lang_chars[of u phone_re] accepts_phone by blast

lemma sublist_set: "sublist u s \<Longrightarrow> set u \<subseteq> set s"
  by (auto simp: sublist_def)

lemma EMAIL_REDACTED_eq: "EMAIL_REDACTED = 91 # js ''EMAIL_REDACTED'' @ [93]"
  by (simp add: EMAIL_REDACTED_def js_def)

lemma PHONE_REDACTED_eq: "PHONE_REDACTED = 91 # js ''PHONE_REDACTED'' @ [93]"
  by (simp add: PHONE_REDACTED_def js_def)

lemma no_at_in_tokens:
  "64 \<notin> set (js ''EMAIL_REDACTED'')" "64 \<notin> set (js ''PHONE_REDACTED'')"
  by (simp_all add: js_def)

lemma no_digit_in_tokens:
  "\<forall>c\<in>set (js ''EMAIL_REDACTED''). \<not> digit c" "\<forall>c\<in>set (js ''PHONE_REDACTED''). \<not> digit c"
  by (simp_all add: js_def digit_def)

lemma email_not_in:
  assumes "64 \<notin> set m" "u \<in> lang email_re"
  shows "\<not> sublist u m"
proof
  assume "sublist u m"
  then have "set u \<subseteq> set m" by (rule sublist_set)
  with email_has_at[OF assms(2)] assms(1) show False by blast
qed

lemma phone_not_in:
  assumes "\<forall>c\<in>set m. \<not> digit c" "u \<in> lang phone_re"
  shows "\<not> sublist u m"
proof
  assume "sublist u m"
  then have "set u \<subseteq> set m" by (rule sublist_set)
  with phone_has_digit[OF assms(2)] assms(1) show False by blast
qed

lemma avoids_email_EMAIL: "avoids email_re EMAIL_REDACTED"
  unfolding EMAIL_REDACTED_eq
  by (rule avoidsI) (erule email_no_bracket, erule email_not_in[OF no_at_in_tokens(1)])

lemma avoids_email_PHONE: "avoids email_re PHONE_REDACTED"
  unfolding PHONE_REDACTED_eq
  by (rule avoidsI) (erule email_no_bracket, erule email_not_in[OF no_at_in_tokens(2)])

lemma avoids_phone_EMAIL: "avoids phone_re EMAIL_REDACTED"
  unfolding EMAIL_REDACTED_eq
  by (rule avoidsI) (erule phone_no_bracket, erule phone_not_in[OF no_digit_in_tokens(1)])

lemma avoids_phone_PHONE: "avoids phone_re PHONE_REDACTED"
  unfolding PHONE_REDACTED_eq
  by (rule avoidsI) (erule phone_no_bracket, erule phone_not_in[OF no_digit_in_tokens(2)])

lemma nonempty_email: "[] \<notin> lang email_re"
  using email_has_at[of "[]"] by auto

lemma nonempty_phone: "[] \<notin> lang phone_re"
  using phone_has_digit[of "[]"] by auto

lemma noSub_token:
  assumes "avoids r tok" "noSub r x" "noSub r y"
  shows "noSub r (x @ tok @ y)"
  using assms unfolding avoids_def noSub_def by blast

section \<open>The text after a replacement\<close>

lemma noStart_Nil: "noStart r [] s"
  by (simp add: noStart_def)

lemma noStart_noSub:
  assumes ne: "[] \<notin> lang r" and ns: "noStart r p s"
  shows "noSub r p"
  unfolding noSub_def
proof (intro ballI notI)
  fix u assume u: "u \<in> lang r" and "sublist u p"
  then obtain p1 p3 where p: "p = p1 @ u @ p3" by (auto simp: sublist_def)
  from u ne have "u \<noteq> []" by auto
  with ns p have "firstMatch r ((u @ p3) @ s) = None"
    unfolding noStart_def by blast
  then have "\<forall>w\<in>lang r. \<not> prefix w (u @ p3 @ s)" by (simp add: firstMatch_None_iff)
  with u have "\<not> prefix u (u @ p3 @ s)" by blast
  then show False by simp
qed

lemma noStart_snoc:
  assumes "noStart r p (c # cs)" "firstMatch r (c # cs) = None"
  shows "noStart r (p @ [c]) cs"
  unfolding noStart_def
proof (intro allI impI)
  fix p1 p2 assume a: "p @ [c] = p1 @ p2 \<and> p2 \<noteq> []"
  then obtain q where q: "p2 = q @ [c]" "p = p1 @ q"
    by (cases p2 rule: rev_cases) auto
  show "firstMatch r (p2 @ cs) = None"
  proof (cases "q = []")
    case True
    with q assms(2) show ?thesis by simp
  next
    case False
    with assms(1) q have "firstMatch r (q @ c # cs) = None"
      unfolding noStart_def by blast
    with q show ?thesis by simp
  qed
qed

lemma firstMatch_Nil: "[] \<notin> lang r \<Longrightarrow> firstMatch r [] = None"
  by (auto simp: firstMatch_None_iff)

lemma firstMatch_pos: "[] \<notin> lang r \<Longrightarrow> firstMatch r s = Some l \<Longrightarrow> l \<noteq> 0"
  using firstMatch_Some[of r s l] by (cases l) auto

lemma replaceAll_free_gen:
  "avoids r tok \<Longrightarrow> [] \<notin> lang r \<Longrightarrow> noStart r p s \<Longrightarrow> noSub r (p @ replaceAll r tok s)"
proof (induction r tok s arbitrary: p rule: replaceAll.induct)
  case (1 r tok)
  from noStart_noSub[OF 1(2) 1(3)] firstMatch_Nil[OF 1(2)] show ?case by simp
next
  case (2 r tok c cs)
  show ?case
  proof (cases "firstMatch r (c # cs)")
    case None
    from noStart_snoc[OF "2.prems"(3) None] have "noStart r (p @ [c]) cs" .
    from "2.IH"(1)[OF None "2.prems"(1) "2.prems"(2) this] None show ?thesis by simp
  next
    case (Some l)
    from firstMatch_pos[OF "2.prems"(2) Some] have l: "l \<noteq> 0" .
    have a: "noSub r p" using noStart_noSub[OF "2.prems"(2) "2.prems"(3)] .
    have "noSub r ([] @ replaceAll r tok (drop l (c # cs)))"
      using "2.IH"(3)[OF Some l "2.prems"(1) "2.prems"(2) noStart_Nil] .
    then have b: "noSub r (replaceAll r tok (drop l (c # cs)))" by simp
    from noSub_token[OF "2.prems"(1) a b] Some l show ?thesis by simp
  qed
qed

lemma replaceAll_free:
  assumes "avoids r tok" "[] \<notin> lang r"
  shows "matchFree r (replaceAll r tok s)"
  using replaceAll_free_gen[OF assms noStart_Nil, of s] by (simp add: matchFree_iff)

lemma noSub_appendD: "noSub r (x @ y) \<Longrightarrow> noSub r x \<and> noSub r y"
  by (auto elim: noSub_sublist)

lemma replaceAll_keeps_free_gen:
  "avoids r' tok \<Longrightarrow> noSub r' (p @ s) \<Longrightarrow> noSub r' (p @ replaceAll r tok s)"
proof (induction r tok s arbitrary: p rule: replaceAll.induct)
  case (1 r tok)
  from "1.prems"(2) have p: "noSub r' p" by simp
  then have e: "noSub r' []" by (rule noSub_sublist) simp
  show ?case
  proof (cases "firstMatch r []")
    case None
    with p show ?thesis by simp
  next
    case (Some l)
    from noSub_token[OF "1.prems"(1) p e] Some show ?thesis by simp
  qed
next
  case (2 r tok c cs)
  from "2.prems"(2) have p: "noSub r' p" and s: "noSub r' (c # cs)"
    using noSub_appendD by blast+
  show ?case
  proof (cases "firstMatch r (c # cs)")
    case None
    from "2.prems"(2) have "noSub r' ((p @ [c]) @ cs)" by simp
    from "2.IH"(1)[OF None "2.prems"(1) this] None show ?thesis by simp
  next
    case (Some l)
    show ?thesis
    proof (cases "l = 0")
      case True
      from s have "noSub r' ([c] @ cs)" by simp
      from "2.IH"(2)[OF Some True "2.prems"(1) this]
      have "noSub r' (c # replaceAll r tok cs)" by simp
      from noSub_token[OF "2.prems"(1) p this] Some True show ?thesis by simp
    next
      case False
      have "sublist (drop l (c # cs)) (c # cs)" by (rule suffix_imp_sublist) (rule suffix_drop)
      with s have "noSub r' ([] @ drop l (c # cs))" by (simp add: noSub_sublist)
      from "2.IH"(3)[OF Some False "2.prems"(1) this]
      have "noSub r' (replaceAll r tok (drop l (c # cs)))" by simp
      from noSub_token[OF "2.prems"(1) p this] Some False show ?thesis by simp
    qed
  qed
qed

lemma replaceAll_keeps_free:
  assumes "avoids r' tok" "matchFree r' s"
  shows "matchFree r' (replaceAll r tok s)"
  using replaceAll_keeps_free_gen[OF assms(1), of "[]" s r] assms(2)
  by (simp add: matchFree_iff)

lemma redactEmails_free: "matchFree email_re (redactEmails s)"
  unfolding redactEmails_def by (rule replaceAll_free[OF avoids_email_EMAIL nonempty_email])

lemma redactPhones_free: "matchFree phone_re (redactPhones s)"
  unfolding redactPhones_def by (rule replaceAll_free[OF avoids_phone_PHONE nonempty_phone])

lemma redactPhones_keeps: "matchFree email_re s \<Longrightarrow> matchFree email_re (redactPhones s)"
  unfolding redactPhones_def by (rule replaceAll_keeps_free[OF avoids_email_PHONE])

lemma redactEmails_keeps: "matchFree phone_re s \<Longrightarrow> matchFree phone_re (redactEmails s)"
  unfolding redactEmails_def by (rule replaceAll_keeps_free[OF avoids_phone_EMAIL])

lemma redactEmails_fixed: "matchFree email_re s \<Longrightarrow> redactEmails s = s"
  unfolding redactEmails_def by (rule matchFree_fixed)

lemma redactPhones_fixed: "matchFree phone_re s \<Longrightarrow> redactPhones s = s"
  unfolding redactPhones_def by (rule matchFree_fixed)

section \<open>Replacing in either order\<close>

lemma matches_suffix: "t \<in> set (matches r s) \<Longrightarrow> suffix t s"
  using matches_sound[of t r s] by (auto simp: suffix_def)

lemma matches_length: "t \<in> set (matches r s) \<Longrightarrow> length t \<le> length s"
  using matches_suffix[of t r s] by (auto simp: suffix_def)

lemma star_iter_fuel:
  "length s \<le> n \<Longrightarrow> length s \<le> m \<Longrightarrow> star_iter f n s = star_iter f m s"
proof (induction n arbitrary: m s)
  case 0
  then have s: "s = []" by simp
  show ?case unfolding s by (cases m) simp_all
next
  case (Suc n)
  show ?case
  proof (cases m)
    case 0
    with Suc.prems have s: "s = []" by simp
    show ?thesis unfolding 0 s by simp
  next
    case (Suc m')
    have "map (\<lambda>r. if length r < length s then star_iter f n r else []) (f s)
          = map (\<lambda>r. if length r < length s then star_iter f m' r else []) (f s)"
    proof (rule map_cong[OF refl])
      fix r
      show "(if length r < length s then star_iter f n r else [])
            = (if length r < length s then star_iter f m' r else [])"
      proof (cases "length r < length s")
        case True
        then have "length r \<le> n" "length r \<le> m'" using Suc.prems \<open>m = Suc m'\<close> by simp_all
        then have "star_iter f n r = star_iter f m' r" by (rule Suc.IH)
        then show ?thesis by simp
      next
        case False
        then show ?thesis by simp
      qed
    qed
    then show ?thesis unfolding Suc star_iter.simps by (rule arg_cong)
  qed
qed

lemma matches_Star_unfold:
  "matches (Star a) s =
     concat (map (\<lambda>r. if length r < length s then matches (Star a) r else []) (matches a s)) @ [s]"
proof (cases s)
  case Nil
  then show ?thesis by simp
next
  case (Cons c cs)
  have "(\<lambda>r. if length r < length s then star_iter (matches a) (length cs) r else [])
        = (\<lambda>r. if length r < length s then matches (Star a) r else [])"
  proof
    fix r
    show "(if length r < length s then star_iter (matches a) (length cs) r else [])
          = (if length r < length s then matches (Star a) r else [])"
    proof (cases "length r < length s")
      case True
      then have "length r \<le> length cs" using Cons by simp
      from star_iter_fuel[OF this, of "length r" "matches a"] True show ?thesis by simp
    qed simp
  qed
  then show ?thesis by (simp add: Cons)
qed

lemma concat_map_filter:
  "(\<And>x. x \<in> set xs \<Longrightarrow> \<not> P x \<Longrightarrow> g x = []) \<Longrightarrow>
     concat (map g xs) = concat (map g (filter P xs))"
  by (induction xs) auto

lemma filter_long_Nil:
  assumes "length t < length v"
  shows "filter (\<lambda>w. length v \<le> length w) (matches r t) = []"
proof -
  have "\<not> length v \<le> length w" if "w \<in> set (matches r t)" for w
    using matches_length[OF that] assms by linarith
  then show ?thesis by (simp add: filter_empty_conv)
qed

text \<open>The ways to match inside \<open>u\<close> are the same, and in the same order, whatever follows.\<close>

lemma matches_append:
  "map (\<lambda>w. w @ v) (matches r u) = filter (\<lambda>t. length v \<le> length t) (matches r (u @ v))"
proof (induction r arbitrary: u)
  case Eps
  show ?case by simp
next
  case (Cls p)
  show ?case by (cases u; cases v) auto
next
  case (Seq a b)
  let ?P = "\<lambda>t. length v \<le> length t"
  let ?g = "\<lambda>t. filter ?P (matches b t)"
  have "filter ?P (matches (Seq a b) (u @ v)) = concat (map ?g (matches a (u @ v)))"
    by (simp add: filter_concat comp_def)
  also have "\<dots> = concat (map ?g (filter ?P (matches a (u @ v))))"
    by (rule concat_map_filter) (simp add: filter_long_Nil)
  also have "\<dots> = concat (map ?g (map (\<lambda>w. w @ v) (matches a u)))"
    by (simp only: Seq.IH(1)[symmetric])
  also have "\<dots> = concat (map (\<lambda>w. map (\<lambda>w. w @ v) (matches b w)) (matches a u))"
    by (simp add: comp_def Seq.IH(2))
  also have "\<dots> = map (\<lambda>w. w @ v) (matches (Seq a b) u)"
    by (simp add: map_concat comp_def)
  finally show ?case by simp
next
  case (Opt a)
  have "filter (\<lambda>t. length v \<le> length t) (matches (Opt a) (u @ v))
        = filter (\<lambda>r. length r < length (u @ v))
            (filter (\<lambda>t. length v \<le> length t) (matches a (u @ v))) @ [u @ v]"
    by (simp add: conj_commute)
  also have "\<dots> = filter (\<lambda>r. length r < length (u @ v)) (map (\<lambda>w. w @ v) (matches a u)) @ [u @ v]"
    by (simp only: Opt.IH[symmetric])
  also have "\<dots> = map (\<lambda>w. w @ v) (matches (Opt a) u)"
    by (simp add: filter_map comp_def)
  finally show ?case by simp
next
  case (Star a)
  let ?P = "\<lambda>t. length v \<le> length t"
  show ?case
  proof (induction u rule: length_induct)
    case (1 u)
    let ?h = "\<lambda>r. filter ?P (if length r < length (u @ v) then matches (Star a) r else [])"
    have "filter ?P (matches (Star a) (u @ v))
          = concat (map ?h (matches a (u @ v))) @ [u @ v]"
      by (subst matches_Star_unfold) (simp add: filter_concat comp_def del: matches.simps)
    also have "concat (map ?h (matches a (u @ v)))
               = concat (map ?h (filter ?P (matches a (u @ v))))"
      by (rule concat_map_filter) (simp add: filter_long_Nil del: matches.simps)
    also have "\<dots> = concat (map ?h (map (\<lambda>w. w @ v) (matches a u)))"
      by (simp only: Star.IH[symmetric])
    also have "\<dots> = concat (map (\<lambda>w. ?h (w @ v)) (matches a u))"
      by (simp add: comp_def del: matches.simps)
    also have "\<dots> = concat (map (\<lambda>w. map (\<lambda>w. w @ v)
                          (if length w < length u then matches (Star a) w else [])) (matches a u))"
    proof -
      have "?h (w @ v) = map (\<lambda>w. w @ v) (if length w < length u then matches (Star a) w else [])"
        for w
        using 1[rule_format, of w] by (simp del: matches.simps)
      then show ?thesis by (simp del: matches.simps)
    qed
    also have "\<dots> @ [u @ v] = map (\<lambda>w. w @ v) (matches (Star a) u)"
      by (subst (2) matches_Star_unfold) (simp add: map_concat comp_def del: matches.simps)
    finally show ?case by (simp del: matches.simps)
  qed
qed

lemma matches_shut:
  assumes "shut r v"
  shows "matches r (u @ v) = map (\<lambda>w. w @ v) (matches r u)"
proof -
  have "length v \<le> length t" if t: "t \<in> set (matches r (u @ v))" for t
  proof (rule ccontr)
    assume "\<not> length v \<le> length t"
    then have lt: "length t < length v" by simp
    from matches_sound[OF t] obtain x where x: "x \<in> lang r" "u @ v = x @ t" by blast
    from x(2) lt obtain v1 where v1: "x = u @ v1" "v = v1 @ t" "v1 \<noteq> []"
      by (auto simp: append_eq_append_conv2)
    then have "hd v \<in> set x" by (cases v1) auto
    with lang_chars[OF x(1)] have "accepts r (hd v)" by blast
    with assms v1 show False by (auto simp: shut_def)
  qed
  then have "filter (\<lambda>t. length v \<le> length t) (matches r (u @ v)) = matches r (u @ v)"
    by (simp add: filter_id_conv)
  with matches_append[of v r u] show ?thesis by simp
qed

lemma firstMatch_shut: "shut r v \<Longrightarrow> firstMatch r (u @ v) = firstMatch r u"
  by (simp add: firstMatch_def matches_shut split: list.splits)

lemma firstMatch_prefix_Some:
  assumes "firstMatch r (u @ v) = Some l" "l \<le> length u"
  shows "firstMatch r u = Some l"
proof -
  from assms(1) obtain t ts where m: "matches r (u @ v) = t # ts"
    and l: "l = length (u @ v) - length t"
    by (auto simp: firstMatch_def split: list.splits)
  from m have "t \<in> set (matches r (u @ v))" by simp
  from matches_length[OF this] l assms(2) have "length v \<le> length t" by simp
  with m matches_append[of v r u]
  have "map (\<lambda>w. w @ v) (matches r u) = t # filter (\<lambda>t. length v \<le> length t) ts" by simp
  then obtain w ws where "matches r u = w # ws" "t = w @ v" by auto
  with l show ?thesis by (simp add: firstMatch_def)
qed

lemma firstMatch_prefix_None: "firstMatch r (u @ v) = None \<Longrightarrow> firstMatch r u = None"
  unfolding firstMatch_None_iff using prefix_prefix by blast

lemma replaceAll_copy:
  "\<forall>j<l. firstMatch r (drop j x) = None \<Longrightarrow> l \<le> length x \<Longrightarrow>
     replaceAll r tok x = take l x @ replaceAll r tok (drop l x)"
proof (induction l arbitrary: x)
  case 0
  show ?case by simp
next
  case (Suc l)
  then obtain c cs where x: "x = c # cs" by (cases x) auto
  from Suc.prems(1) have n: "firstMatch r (c # cs) = None" unfolding x by force
  have "\<forall>j<l. firstMatch r (drop j cs) = None"
  proof (intro allI impI)
    fix j assume "j < l"
    then have "Suc j < Suc l" by simp
    with Suc.prems(1) have "firstMatch r (drop (Suc j) x) = None" by blast
    then show "firstMatch r (drop j cs) = None" by (simp add: x)
  qed
  moreover from Suc.prems(2) have "l \<le> length cs" by (simp add: x)
  ultimately have "replaceAll r tok cs = take l cs @ replaceAll r tok (drop l cs)"
    by (rule Suc.IH)
  with n show ?case by (simp add: x)
qed

lemma replaceAll_token:
  "noStart r T z \<Longrightarrow> replaceAll r tok (T @ z) = T @ replaceAll r tok z"
proof (induction T)
  case Nil
  show ?case by simp
next
  case (Cons a T)
  from Cons.prems have "firstMatch r ((a # T) @ z) = None"
    unfolding noStart_def by blast
  moreover have "noStart r T z"
    unfolding noStart_def
  proof (intro allI impI)
    fix p1 p2 assume "T = p1 @ p2 \<and> p2 \<noteq> []"
    then have "a # T = (a # p1) @ p2 \<and> p2 \<noteq> []" by simp
    with Cons.prems show "firstMatch r (p2 @ z) = None" unfolding noStart_def by blast
  qed
  ultimately show ?case using Cons.IH by simp
qed

lemma noStart_bracketed:
  assumes br: "\<And>u. u \<in> lang r \<Longrightarrow> 91 \<notin> set u \<and> 93 \<notin> set u"
    and mid: "\<And>u. u \<in> lang r \<Longrightarrow> \<not> sublist u m"
    and ne: "[] \<notin> lang r"
  shows "noStart r (91 # m @ [93]) z"
  unfolding noStart_def
proof (intro allI impI)
  fix p1 p2 assume a: "91 # m @ [93] = p1 @ p2 \<and> p2 \<noteq> []"
  then obtain q where q: "p2 = q @ [93]" by (cases p2 rule: rev_cases) auto
  with a have pq: "91 # m = p1 @ q" by simp
  show "firstMatch r (p2 @ z) = None"
    unfolding firstMatch_None_iff
  proof (intro ballI notI)
    fix u assume u: "u \<in> lang r" and p: "prefix u (p2 @ z)"
    from br[OF u] have b: "91 \<notin> set u" "93 \<notin> set u" by simp_all
    from u ne have un: "u \<noteq> []" by auto
    from p q have "prefix u (q @ 93 # z)" by simp
    then have "prefix u q \<or> (\<exists>us. u = q @ us \<and> prefix us (93 # z))"
      by (simp add: prefix_append)
    then have pu: "prefix u q"
    proof
      assume "prefix u q" then show ?thesis .
    next
      assume "\<exists>us. u = q @ us \<and> prefix us (93 # z)"
      then obtain us where us: "u = q @ us" "prefix us (93 # z)" by blast
      show ?thesis
      proof (cases us)
        case Nil
        with us show ?thesis by simp
      next
        case (Cons a as)
        with us(2) have "a = 93" by simp
        with us(1) Cons b(2) show ?thesis by simp
      qed
    qed
    show False
    proof (cases p1)
      case Nil
      with pq have "q = 91 # m" by simp
      with pu un have "hd u = 91" by (cases u) auto
      with un b(1) show False by (cases u) auto
    next
      case (Cons a as)
      with pq have "m = as @ q" by simp
      with pu have "sublist u m"
        by (metis prefix_imp_sublist sublist_appendI sublist_order.order.trans append_Nil2)
      with mid[OF u] show False by simp
    qed
  qed
qed

lemma noStart_phone_EMAIL: "noStart phone_re EMAIL_REDACTED z"
  unfolding EMAIL_REDACTED_eq
  by (rule noStart_bracketed)
     (erule phone_no_bracket, erule phone_not_in[OF no_digit_in_tokens(1)], rule nonempty_phone)

lemma noStart_email_PHONE: "noStart email_re PHONE_REDACTED z"
  unfolding PHONE_REDACTED_eq
  by (rule noStart_bracketed)
     (erule email_no_bracket, erule email_not_in[OF no_at_in_tokens(2)], rule nonempty_email)

lemma replaceAll_shape:
  "tok \<noteq> [] \<Longrightarrow>
     \<exists>cp v v'. replaceAll r tok y = cp @ v' \<and> y = cp @ v \<and> (v' = [] \<or> hd v' = hd tok)"
proof (induction y)
  case Nil
  show ?case
  proof (cases "firstMatch r []")
    case None
    then show ?thesis by simp
  next
    case (Some l)
    with Nil show ?thesis by simp
  qed
next
  case (Cons c cs)
  show ?case
  proof (cases "firstMatch r (c # cs)")
    case None
    from Cons.IH[OF Cons.prems] obtain cp v v' where
      "replaceAll r tok cs = cp @ v'" "cs = cp @ v" "v' = [] \<or> hd v' = hd tok" by blast
    with None have "replaceAll r tok (c # cs) = (c # cp) @ v' \<and> c # cs = (c # cp) @ v
        \<and> (v' = [] \<or> hd v' = hd tok)" by simp
    then show ?thesis by blast
  next
    case (Some l)
    then obtain w where "replaceAll r tok (c # cs) = tok @ w" by (cases "l = 0") simp_all
    with Cons.prems have "replaceAll r tok (c # cs) = [] @ (tok @ w) \<and> c # cs = [] @ (c # cs)
        \<and> (tok @ w = [] \<or> hd (tok @ w) = hd tok)" by simp
    then show ?thesis by blast
  qed
qed

lemma shut_shape:
  assumes "tok \<noteq> []" "\<not> accepts r' (hd tok)"
  shows "\<exists>cp v v'. replaceAll r tok y = cp @ v' \<and> y = cp @ v \<and> shut r' v'"
  using replaceAll_shape[OF assms(1), of r y] assms(2) unfolding shut_def by metis

text \<open>A match of \<open>r\<close> that \<open>r'\<close> does not touch is still the first thing \<open>r\<close>
  finds after \<open>r'\<close> has been replaced.\<close>

lemma replace_after_other:
  assumes m: "firstMatch r x = Some l" and ne: "[] \<notin> lang r"
    and free: "\<forall>j<l. firstMatch r' (drop j x) = None"
    and tok: "tok' \<noteq> []" "\<not> accepts r (hd tok')"
  shows "replaceAll r tok (replaceAll r' tok' x)
         = tok @ replaceAll r tok (replaceAll r' tok' (drop l x))"
proof -
  from firstMatch_Some[OF m] have l: "l \<le> length x" by simp
  from firstMatch_pos[OF ne m] have l0: "l \<noteq> 0" .
  let ?Y = "replaceAll r' tok' (drop l x)"
  from replaceAll_copy[OF free l] have c: "replaceAll r' tok' x = take l x @ ?Y" .
  from shut_shape[OF tok, of r' "drop l x"] obtain cp v v' where
    s: "?Y = cp @ v'" "drop l x = cp @ v" "shut r v'" by blast
  have "x = (take l x @ cp) @ v" using s(2) by (metis append_take_drop_id append_assoc)
  with m have "firstMatch r ((take l x @ cp) @ v) = Some l" by simp
  moreover have "l \<le> length (take l x @ cp)" using l by simp
  ultimately have "firstMatch r (take l x @ cp) = Some l" by (rule firstMatch_prefix_Some)
  with firstMatch_shut[OF s(3), of "take l x @ cp"] s(1)
  have f: "firstMatch r (take l x @ ?Y) = Some l" by simp
  from l l0 obtain a as where t: "take l x = a # as" by (cases "take l x") auto
  have d: "drop l (take l x @ ?Y) = ?Y" using l by simp
  have "replaceAll r tok (take l x @ ?Y) = tok @ replaceAll r tok (drop l (take l x @ ?Y))"
    using f l0 unfolding t by simp
  with c d show ?thesis by simp
qed

lemma replace_own_first:
  assumes m: "firstMatch r x = Some l" and ne: "[] \<notin> lang r"
    and tok: "\<And>z. noStart r' tok z"
  shows "replaceAll r' tok' (replaceAll r tok x)
         = tok @ replaceAll r' tok' (replaceAll r tok (drop l x))"
proof -
  from firstMatch_Some[OF m] have l: "l \<le> length x" by simp
  from firstMatch_pos[OF ne m] have l0: "l \<noteq> 0" .
  from l l0 obtain c cs where x: "x = c # cs" by (cases x) auto
  from m l0 have "replaceAll r tok x = tok @ replaceAll r tok (drop l x)"
    unfolding x by simp
  with replaceAll_token[OF tok] show ?thesis by simp
qed

lemma replace_no_match:
  assumes "firstMatch r (c # cs) = None" "firstMatch r' (c # cs) = None"
    and tok: "tok' \<noteq> []" "\<not> accepts r (hd tok')"
  shows "replaceAll r tok (replaceAll r' tok' (c # cs))
         = c # replaceAll r tok (replaceAll r' tok' cs)"
proof -
  let ?Y = "replaceAll r' tok' cs"
  from shut_shape[OF tok, of r' cs] obtain cp v v' where
    s: "?Y = cp @ v'" "cs = cp @ v" "shut r v'" by blast
  from assms(1) s(2) have "firstMatch r ((c # cp) @ v) = None" by simp
  then have "firstMatch r (c # cp) = None" by (rule firstMatch_prefix_None)
  with firstMatch_shut[OF s(3), of "c # cp"] s(1) have "firstMatch r (c # ?Y) = None" by simp
  with assms(2) show ?thesis by simp
qed

lemma uncoveredD:
  assumes "uncovered r r' x" "firstMatch r x = Some l"
  shows "\<forall>j<l. firstMatch r' (drop j x) = None"
proof -
  have "x \<in> set (suffixes x)" by (simp add: in_set_suffixes)
  with assms(1) have "case firstMatch r x of None \<Rightarrow> True
      | Some l \<Rightarrow> list_all (\<lambda>j. firstMatch r' (drop j x) = None) [0..<l]"
    unfolding uncovered_def list_all_iff by blast
  with assms(2) show ?thesis by (simp add: list_all_iff)
qed

lemma uncovered_suffix: "uncovered r r' x \<Longrightarrow> suffix s x \<Longrightarrow> uncovered r r' s"
  unfolding uncovered_def list_all_iff in_set_suffixes
  by (auto simp: suffix_def)

lemma independent_suffix: "independent x \<Longrightarrow> suffix s x \<Longrightarrow> independent s"
  unfolding independent_def by (blast intro: uncovered_suffix)

lemma token_heads:
  "EMAIL_REDACTED \<noteq> []" "PHONE_REDACTED \<noteq> []"
  "\<not> accepts phone_re (hd EMAIL_REDACTED)" "\<not> accepts email_re (hd PHONE_REDACTED)"
  using accepts_email(1) accepts_phone(1)
  by (simp_all add: EMAIL_REDACTED_eq PHONE_REDACTED_eq)

lemma redact_commute:
  "independent x \<Longrightarrow> redactEmails (redactPhones x) = redactPhones (redactEmails x)"
proof (induction x rule: length_induct)
  case (1 x)
  show ?case
  proof (cases x)
    case Nil
    then show ?thesis
      by (simp add: redactEmails_def redactPhones_def
            firstMatch_Nil[OF nonempty_email] firstMatch_Nil[OF nonempty_phone])
  next
    case (Cons c cs)
    have IH: "redactEmails (redactPhones (drop l x)) = redactPhones (redactEmails (drop l x))"
      if "l \<noteq> 0" for l
    proof -
      have "length (drop l x) < length x" using that Cons by simp
      moreover have "independent (drop l x)"
        using "1.prems" suffix_drop by (rule independent_suffix)
      ultimately show ?thesis using "1.IH" by blast
    qed
    show ?thesis
    proof (cases "firstMatch email_re x")
      case (Some l)
      from firstMatch_pos[OF nonempty_email Some] have l0: "l \<noteq> 0" .
      from "1.prems" have "uncovered email_re phone_re x" by (simp add: independent_def)
      from uncoveredD[OF this Some] have free: "\<forall>j<l. firstMatch phone_re (drop j x) = None" .
      have "redactEmails (redactPhones x)
            = EMAIL_REDACTED @ redactEmails (redactPhones (drop l x))"
        unfolding redactEmails_def redactPhones_def
        by (rule replace_after_other[OF Some nonempty_email free token_heads(2) token_heads(4)])
      moreover have "redactPhones (redactEmails x)
            = EMAIL_REDACTED @ redactPhones (redactEmails (drop l x))"
        unfolding redactEmails_def redactPhones_def
        by (rule replace_own_first[OF Some nonempty_email noStart_phone_EMAIL])
      ultimately show ?thesis using IH[OF l0] by simp
    next
      case None
      note eNone = None
      show ?thesis
      proof (cases "firstMatch phone_re x")
        case (Some l)
        from firstMatch_pos[OF nonempty_phone Some] have l0: "l \<noteq> 0" .
        from "1.prems" have "uncovered phone_re email_re x" by (simp add: independent_def)
        from uncoveredD[OF this Some] have free: "\<forall>j<l. firstMatch email_re (drop j x) = None" .
        have "redactPhones (redactEmails x)
              = PHONE_REDACTED @ redactPhones (redactEmails (drop l x))"
          unfolding redactEmails_def redactPhones_def
          by (rule replace_after_other[OF Some nonempty_phone free token_heads(1) token_heads(3)])
        moreover have "redactEmails (redactPhones x)
              = PHONE_REDACTED @ redactEmails (redactPhones (drop l x))"
          unfolding redactEmails_def redactPhones_def
          by (rule replace_own_first[OF Some nonempty_phone noStart_email_PHONE])
        ultimately show ?thesis using IH[OF l0] by simp
      next
        case None
        have a: "redactEmails (redactPhones (c # cs)) = c # redactEmails (redactPhones cs)"
          unfolding redactEmails_def redactPhones_def
          by (rule replace_no_match[OF eNone[unfolded Cons] None[unfolded Cons]
                token_heads(2) token_heads(4)])
        have b: "redactPhones (redactEmails (c # cs)) = c # redactPhones (redactEmails cs)"
          unfolding redactEmails_def redactPhones_def
          by (rule replace_no_match[OF None[unfolded Cons] eNone[unfolded Cons]
                token_heads(1) token_heads(3)])
        from IH[of 1] have "redactEmails (redactPhones cs) = redactPhones (redactEmails cs)"
          by (simp add: Cons)
        with a b show ?thesis by (simp add: Cons)
      qed
    qed
  qed
qed

lemma uncovered_free:
  assumes "matchFree r' x"
  shows "uncovered r r' x"
  unfolding uncovered_def list_all_iff
proof
  fix s assume "s \<in> set (suffixes x)"
  then have s: "suffix s x" by (simp add: in_set_suffixes)
  have "firstMatch r' (drop j s) = None" for j
  proof -
    from s obtain zs where "x = zs @ s" by (auto simp: suffix_def)
    then have "x = (zs @ take j s) @ drop j s" by simp
    then have "suffix (drop j s) x" by (rule suffixI)
    then have "drop j s \<in> set (suffixes x)" by (simp add: in_set_suffixes)
    with assms show ?thesis unfolding matchFree_def list_all_iff by blast
  qed
  then show "case firstMatch r s of None \<Rightarrow> True
      | Some l \<Rightarrow> \<forall>j\<in>set [0..<l]. firstMatch r' (drop j s) = None"
    by (simp split: option.splits)
qed

lemma uncovered_none: "matchFree r x \<Longrightarrow> uncovered r r' x"
  unfolding uncovered_def matchFree_def list_all_iff by simp

lemma independent_free: "matchFree email_re x \<or> matchFree phone_re x \<Longrightarrow> independent x"
  unfolding independent_def using uncovered_free uncovered_none by blast

section \<open>The store and the service\<close>

lemma atob_error: "atob s = Inl e \<Longrightarrow> e = InvalidCharacterError"
  by (auto simp: atob_def Let_def split: if_splits)

lemma idb_add_all_sorted:
  "distinct (map doc_id (ds @ st)) \<Longrightarrow> sorted (map doc_id st) \<Longrightarrow>
     \<exists>st'. idb_add_all ds st = Inr st' \<and> mset st' = mset ds + mset st
          \<and> sorted (map doc_id st')"
proof (induction ds arbitrary: st)
  case Nil
  then show ?case by simp
next
  case (Cons d ds)
  let ?st1 = "insort_key doc_id d st"
  from Cons.prems(1) have n: "doc_id d \<notin> set (map doc_id st)" by auto
  then have a: "idb_add d st = Inr ?st1" by (simp add: idb_add_def)
  have "mset (map doc_id (ds @ ?st1)) = mset (map doc_id (d # ds @ st))" by simp
  then have "distinct (map doc_id (ds @ ?st1)) = distinct (map doc_id (d # ds @ st))"
    by (rule mset_eq_imp_distinct_iff)
  with Cons.prems(1) have d1: "distinct (map doc_id (ds @ ?st1))" by simp
  have s1: "sorted (map doc_id ?st1)" using Cons.prems(2) by (simp add: sorted_insort_key)
  from Cons.IH[OF d1 s1] obtain st' where
    "idb_add_all ds ?st1 = Inr st'" "mset st' = mset ds + mset ?st1" "sorted (map doc_id st')"
    by blast
  with a show ?case by simp
qed

lemmas regex_ev = js_def redactPII_def redactEmails_def redactPhones_def email_re_def phone_re_def
  EMAIL_REDACTED_def PHONE_REDACTED_def Plus_def AtLeast_def OneOrTwo_def Chr_def firstMatch_def
  digit_def alpha_def email_local_def email_domain_def js_space_def separator_def Exactly_numeral

lemmas text_ev = TextEncoder_encode_def TextDecoder_decode_def utf8_encode_cp_def
  utf16_encode_cp_def lead_surrogate_def trail_surrogate_def

lemmas crypt_ev = encryptData_def decryptData_def test_subtle_def text_ev b64_ev

lemma subtle_correct_test: "subtle_correct test_subtle"
  by (simp add: subtle_correct_def test_subtle_def)

lemma cos_ev:
  "cosineSimilarity [1, 0] [0, 1] = 0" "cosineSimilarity [1, 0] [1, 0] = 1"
  by (simp_all add: cosineSimilarity_def magnitude_def dotProduct_def upt_rec)

lemma search_result_ev:
  "search test_service test_env (js ''q'') 3 [docA, docB] =
     Resolved [\<lparr>mc_text = js ''[Encrypted Memory]'', mc_timestamp = 1, mc_score = 1\<rparr>,
               \<lparr>mc_text = js ''hi'', mc_timestamp = 2, mc_score = 0\<rparr>]"
  by (simp add: search_def test_service_def test_env_def idb_getAll_def topDocs_def js_slice0_def
       docA_def docB_def cos_ev decryptDoc_def crypt_ev)

lemma topDocs_Nil: "topDocs qv limit [] = []"
  by (simp add: topDocs_def js_slice0_def)

lemma search_Resolved:
  assumes "dbPromise svc = Resolved ()" "keyPromise svc = Resolved key"
    "getEmbedding env query = Inr qv" "tx_error env = None"
  shows "search svc env query limit st
         = Resolved (map (decryptDoc (crypto env) key) (topDocs qv limit st))"
  using assms by (simp add: search_def idb_getAll_def Let_def topDocs_Nil)

lemma decryptDoc_fields:
  "mc_timestamp (decryptDoc cr key d) = timestamp d"
  "mc_score (decryptDoc cr key d) = score d"
  "(case decryptData cr (content d) key of
      Inl e \<Rightarrow> mc_text (decryptDoc cr key d) = js ''[Encrypted Memory]''
    | Inr t \<Rightarrow> mc_text (decryptDoc cr key d) = t)"
  by (simp_all add: decryptDoc_def split: sum.splits)

lemma decryptDoc_roundtrip:
  assumes "subtle_correct cr" "length iv = 12" "wellformed p" "no_bom p"
    "encryptData cr n iv p key = Inr (content d)"
  shows "mc_text (decryptDoc cr key d) = p"
proof -
  from decrypt_encrypt[OF assms(1,2,5)] text_roundtrip[OF assms(3,4)]
  have "decryptData cr (content d) key = Inr p" by simp
  then show ?thesis by (simp add: decryptDoc_def)
qed

lemma length_topDocs: "0 \<le> limit \<Longrightarrow> length (topDocs qv limit st) = min (nat limit) (length st)"
  by (simp add: topDocs_def js_slice0_def)

lemma handleSend_context:
  assumes "\<not> list_all js_space input" "\<not> isLoading"
    "search svc (search_env senv) (redactPII input) 3 st = Resolved results"
  shows "fst (handleSend svc senv input isLoading st) = filter (\<lambda>m. 0.65 < mc_score m) results"
  using assms by (simp add: handleSend_def Let_def split: sum.splits)

lemma handleSend_scores:
  "\<forall>m\<in>set (fst (handleSend svc senv input isLoading st)). 0.65 < mc_score m"
  by (auto simp: handleSend_def Let_def split: promise.splits sum.splits)

lemma Promise_all2_Inr: "Promise_all2 f a b = Inr (x, y) \<longleftrightarrow> a = Inr x \<and> b = Inr y"
  by (simp add: Promise_all2_def split: sum.splits)

lemma Promise_all2_Inl:
  "Promise_all2 f (Inl e) b = Inl (case b of Inl e' \<Rightarrow> if f then e else e' | Inr y \<Rightarrow> e)"
  by (simp add: Promise_all2_def split: sum.splits)

lemma addDocument_Resolved:
  assumes "addDocument svc env t ty st = (Resolved (), st')"
  shows "\<exists>key vec blob. keyPromise svc = Resolved key \<and> getEmbedding env t = Inr vec
           \<and> encryptData (crypto env) (max_arguments env) (random_iv env) t key = Inr blob
           \<and> idb_add \<lparr>doc_id = randomUUID env, content = blob, vector = vec,
                        timestamp = now env, doc_type = ty\<rparr> st = Inr st'"
proof -
  from assms obtain key where k: "keyPromise svc = Resolved key" and d: "dbPromise svc = Resolved ()"
    by (auto simp: addDocument_def split: promise.splits)
  let ?a = "Promise_all2 (embedding_first env) (getEmbedding env t)
              (encryptData (crypto env) (max_arguments env) (random_iv env) t key)"
  from assms k d obtain vec blob where a: "?a = Inr (vec, blob)"
    by (cases ?a) (auto simp: addDocument_def)
  from assms k d a have "idb_add \<lparr>doc_id = randomUUID env, content = blob, vector = vec,
                        timestamp = now env, doc_type = ty\<rparr> st = Inr st'"
    by (auto simp: addDocument_def Let_def split: option.splits sum.splits)
  with k a show ?thesis by (simp add: Promise_all2_Inr)
qed

lemma addDocument_embedding_Inl:
  assumes "getEmbedding env t = Inl e"
  shows "snd (addDocument svc env t ty st) = st"
    "fst (addDocument svc env t ty st) \<noteq> Resolved ()"
    "dbPromise svc = Resolved () \<Longrightarrow> keyPromise svc = Resolved key \<Longrightarrow>
       addDocument svc env t ty st =
         (Rejected (case encryptData (crypto env) (max_arguments env) (random_iv env) t key of
                      Inl e' \<Rightarrow> if embedding_first env then e else e'
                    | Inr blob \<Rightarrow> e), st)"
  using assms by (simp_all add: addDocument_def Promise_all2_Inl split: promise.splits)

lemma addDocument_grows: "set st \<subseteq> set (snd (addDocument svc env t ty st))"
  by (auto simp: addDocument_def Let_def idb_add_def set_insort_key
        split: promise.splits sum.splits option.splits if_splits prod.splits)

lemma idb_add_mem: "idb_add d st = Inr st' \<Longrightarrow> d \<in> set st'"
  by (auto simp: idb_add_def set_insort_key split: if_splits)

lemma handleSend_store:
  assumes "\<not> list_all js_space input" "\<not> isLoading"
    "search svc (search_env senv) (redactPII input) 3 st \<noteq> Pending"
    "streamChat senv (redactPII input) (fst (handleSend svc senv input isLoading st))
       = Inr fullResponse"
  shows "snd (handleSend svc senv input isLoading st)
         = snd (addDocument svc (response_env senv) fullResponse Chat
                 (snd (addDocument svc (input_env senv) (redactPII input) Chat st)))"
proof (cases "search svc (search_env senv) (redactPII input) 3 st")
  case (Resolved docs)
  with assms(1,2,4) show ?thesis
    by (simp add: handleSend_def Let_def split: sum.splits)
next
  case (Rejected e)
  with assms(1,2,4) show ?thesis
    by (simp add: handleSend_def Let_def split: sum.splits)
next
  case Pending
  with assms(3) show ?thesis by simp
qed

lemma handleSend_found:
  assumes "\<not> list_all js_space input" "\<not> isLoading"
  shows "fst (handleSend svc senv input isLoading st)
         = (case search svc (search_env senv) (redactPII input) 3 st of
              Resolved docs \<Rightarrow> filter (\<lambda>m. 0.65 < mc_score m) docs
            | Rejected e \<Rightarrow> []
            | Pending \<Rightarrow> [])"
  using assms by (simp add: handleSend_def Let_def split: promise.splits sum.splits)

lemma handleSend_input_doc:
  assumes "\<not> list_all js_space input" "\<not> isLoading"
    "search svc (search_env senv) (redactPII input) 3 st \<noteq> Pending"
    "streamChat senv (redactPII input) (fst (handleSend svc senv input isLoading st))
       = Inr fullResponse"
    "addDocument svc (input_env senv) (redactPII input) Chat st = (Resolved (), st1)"
  shows "\<exists>key vec blob. keyPromise svc = Resolved key
           \<and> getEmbedding (input_env senv) (redactPII input) = Inr vec
           \<and> encryptData (crypto (input_env senv)) (max_arguments (input_env senv))
                (random_iv (input_env senv)) (redactPII input) key = Inr blob
           \<and> \<lparr>doc_id = randomUUID (input_env senv), content = blob, vector = vec,
                timestamp = now (input_env senv), doc_type = Chat\<rparr>
               \<in> set (snd (handleSend svc senv input isLoading st))"
proof -
  from addDocument_Resolved[OF assms(5)] obtain key vec blob where
    k: "keyPromise svc = Resolved key"
    and v: "getEmbedding (input_env senv) (redactPII input) = Inr vec"
    and b: "encryptData (crypto (input_env senv)) (max_arguments (input_env senv))
              (random_iv (input_env senv)) (redactPII input) key = Inr blob"
    and a: "idb_add \<lparr>doc_id = randomUUID (input_env senv), content = blob, vector = vec,
                      timestamp = now (input_env senv), doc_type = Chat\<rparr> st = Inr st1"
    by blast
  from idb_add_mem[OF a]
  have "\<lparr>doc_id = randomUUID (input_env senv), content = blob, vector = vec,
          timestamp = now (input_env senv), doc_type = Chat\<rparr> \<in> set st1" .
  moreover have "set st1 \<subseteq> set (snd (handleSend svc senv input isLoading st))"
    using handleSend_store[OF assms(1-4)] assms(5)
      addDocument_grows[of st1 svc "response_env senv" fullResponse Chat] by simp
  ultimately have "\<lparr>doc_id = randomUUID (input_env senv), content = blob, vector = vec,
          timestamp = now (input_env senv), doc_type = Chat\<rparr>
        \<in> set (snd (handleSend svc senv input isLoading st))" by blast
  with k v b show ?thesis by blast
qed

lemma handleSend_same_redaction:
  assumes "\<not> list_all js_space input" "\<not> list_all js_space input'"
    "redactPII input = redactPII input'"
  shows "handleSend svc senv input isLoading st = handleSend svc senv input' isLoading st"
  unfolding handleSend_def using assms by simp

lemma redactPII_free: "matchFree email_re (redactPII x)" "matchFree phone_re (redactPII x)"
  unfolding redactPII_def
  by (rule redactPhones_keeps, rule redactEmails_free) (rule redactPhones_free)

lemma addDocument_ev:
  "addDocument test_service test_env (js ''a@b.co'') Chat [] =
     (Resolved (),
      [\<lparr>doc_id = js ''a'', content = js ''AAAAAAAAAAAAAAAAYUBiLmNvBwcHBwcHBwcHBwcHBwcHBw=='',
        vector = [1, 0], timestamp = 2, doc_type = Chat\<rparr>])"
  by (simp add: addDocument_def Promise_all2_def test_service_def test_env_def idb_add_def crypt_ev)

lemma key_store_ev:
  "open_error (generating g) = None" "get_error (generating g) = None"
  "generated (generating g) = Some g" "put_completes (generating g)"
  by (simp_all add: generating_def)

lemma getPersistentKey_stored:
  assumes "open_error env = None" "get_error env = None" "keys KEY_ID = Some k"
  shows "getPersistentKey env keys = (Resolved k, keys)"
  using assms by (simp add: getPersistentKey_def key_read_def key_settle_def)

lemma getPersistentKey_generates:
  assumes "open_error env = None" "get_error env = None" "keys KEY_ID = None"
    "generated env = Some g" "put_completes env"
  shows "getPersistentKey env keys = (Resolved g, keys(KEY_ID \<mapsto> g))"
  using assms by (simp add: getPersistentKey_def key_read_def key_settle_def)

lemma getPersistentKey_persisted:
  assumes "fst (getPersistentKey env keys) = Resolved k"
  shows "snd (getPersistentKey env keys) KEY_ID = Some k"
  using assms
  by (auto simp: getPersistentKey_def key_read_def key_settle_def split: option.splits if_splits)

section \<open>The claims\<close>

subsection \<open>C1: decrypting an encrypted text\<close>

text \<open>
  C1 says that for every plaintext \<open>p\<close> and key \<open>k\<close>,
  \<^verbatim>\<open>decryptData(encryptData(p, k), k)\<close> is \<open>p\<close>. The code loses a leading U+FEFF
  (\<^verbatim>\<open>new TextDecoder()\<close> drops it) and turns an unpaired surrogate into U+FFFD
  (\<^verbatim>\<open>TextEncoder\<close> does): the string that is just U+FEFF comes back empty, the
  string that is just U+D800 comes back as U+FFFD. And \<open>encryptData\<close> returns no
  blob for a long plaintext: 500000 letters \<open>a\<close> make an envelope of 500028 bytes,
  more than an engine that accepts 500000 arguments takes in the call of
  \<^verbatim>\<open>String.fromCharCode\<close>.
\<close>

theorem roundtrip_fails:
  "encryptData test_subtle 65535 (replicate 12 0) [0xFEFF] 7
     = Inr (js ''AAAAAAAAAAAAAAAA77u/BwcHBwcHBwcHBwcHBwcHBw=='')
   \<and> decryptData test_subtle (js ''AAAAAAAAAAAAAAAA77u/BwcHBwcHBwcHBwcHBwcHBw=='') 7 = Inr []
   \<and> encryptData test_subtle 65535 (replicate 12 0) [0xD800] 7
     = Inr (js ''AAAAAAAAAAAAAAAA77+9BwcHBwcHBwcHBwcHBwcHBw=='')
   \<and> decryptData test_subtle (js ''AAAAAAAAAAAAAAAA77+9BwcHBwcHBwcHBwcHBwcHBw=='') 7
     = Inr [0xFFFD]
   \<and> encryptData test_subtle 500000 (replicate 12 0) (replicate 500000 97) 7 = Inl RangeError"
proof -
  have "encryptData test_subtle 500000 (replicate 12 0) (replicate 500000 97) 7 = Inl RangeError"
    by (rule encryptData_long) (simp_all add: test_subtle_def)
  moreover have "encryptData test_subtle 65535 (replicate 12 0) [0xFEFF] 7
     = Inr (js ''AAAAAAAAAAAAAAAA77u/BwcHBwcHBwcHBwcHBwcHBw=='')"
    by (simp add: crypt_ev)
  moreover have "decryptData test_subtle (js ''AAAAAAAAAAAAAAAA77u/BwcHBwcHBwcHBwcHBwcHBw=='') 7
     = Inr []"
    by (simp add: crypt_ev)
  moreover have "encryptData test_subtle 65535 (replicate 12 0) [0xD800] 7
     = Inr (js ''AAAAAAAAAAAAAAAA77+9BwcHBwcHBwcHBwcHBwcHBw=='')"
    by (simp add: crypt_ev)
  moreover have "decryptData test_subtle (js ''AAAAAAAAAAAAAAAA77+9BwcHBwcHBwcHBwcHBwcHBw=='') 7
     = Inr [0xFFFD]"
    by (simp add: crypt_ev)
  ultimately show ?thesis by blast
qed

text \<open>
  C1, amended: for every well-formed plaintext \<open>p\<close> (no unpaired surrogate) that
  does not begin with U+FEFF, every key \<open>k\<close> and every 12-byte nonce, when AES-GCM
  decrypts what it encrypted and the envelope (nonce, ciphertext and tag) has no more
  bytes than the engine accepts arguments in a call, \<open>encryptData\<close> returns a blob
  and \<open>decryptData\<close> of that blob under \<open>k\<close> returns \<open>p\<close>.
\<close>

theorem encrypt_decrypt_roundtrip:
  assumes "subtle_correct cr" "length iv = 12" "wellformed p" "no_bom p"
    and "length (iv @ subtle_encrypt cr k iv (TextEncoder_encode p)) \<le> max_args"
  shows "\<exists>blob. encryptData cr max_args iv p k = Inr blob \<and> decryptData cr blob k = Inr p"
proof -
  from assms(5) obtain blob where b: "encryptData cr max_args iv p k = Inr blob"
    unfolding encryptData_cases by simp
  from decrypt_encrypt[OF assms(1,2) b] text_roundtrip[OF assms(3,4)]
  have "decryptData cr blob k = Inr p" by simp
  with b show ?thesis by blast
qed

text \<open>The amended C1 at the plaintext \<open>hi\<close>, key 7, a zero nonce and an engine
  that accepts 65535 arguments.\<close>

theorem encrypt_decrypt_roundtrip_witness:
  "subtle_correct test_subtle \<and> length (replicate 12 (0::byte)) = 12
   \<and> wellformed (js ''hi'') \<and> no_bom (js ''hi'')
   \<and> length (replicate 12 0 @ subtle_encrypt test_subtle 7 (replicate 12 0)
               (TextEncoder_encode (js ''hi''))) \<le> 65535
   \<and> (\<exists>blob. encryptData test_subtle 65535 (replicate 12 0) (js ''hi'') 7 = Inr blob
         \<and> decryptData test_subtle blob 7 = Inr (js ''hi''))"
proof -
  have h: "length (replicate 12 (0::byte)) = 12" "wellformed (js ''hi'')" "no_bom (js ''hi'')"
    by (simp_all add: js_def no_bom_def lead_surrogate_def trail_surrogate_def)
  have l: "length (replicate 12 0 @ subtle_encrypt test_subtle 7 (replicate 12 0)
               (TextEncoder_encode (js ''hi''))) \<le> 65535"
    by (simp add: test_subtle_def TextEncoder_encode_def utf8_encode_cp_def js_def
          lead_surrogate_def trail_surrogate_def)
  from encrypt_decrypt_roundtrip[OF subtle_correct_test h l] subtle_correct_test h l
  show ?thesis by blast
qed

subsection \<open>C2: where redaction happens\<close>

text \<open>
  C2 says that for every text \<open>t\<close> passed to \<open>addDocument\<close>, what is embedded,
  encrypted and persisted is \<open>redactPII t\<close>. \<open>addDocument\<close> does not redact:
  given \<open>a@b.co\<close> it stores a blob that decrypts to \<open>a@b.co\<close>, while
  \<open>redactPII\<close> of that text is \<open>[EMAIL_REDACTED]\<close>.
\<close>

theorem addDocument_stores_raw_text:
  "map content (snd (addDocument test_service test_env (js ''a@b.co'') Chat []))
     = [js ''AAAAAAAAAAAAAAAAYUBiLmNvBwcHBwcHBwcHBwcHBwcHBw=='']
   \<and> decryptData test_subtle (js ''AAAAAAAAAAAAAAAAYUBiLmNvBwcHBwcHBwcHBwcHBwcHBw=='') 7
       = Inr (js ''a@b.co'')
   \<and> redactPII (js ''a@b.co'') = js ''[EMAIL_REDACTED]''"
proof -
  have "redactPII (js ''a@b.co'') = js ''[EMAIL_REDACTED]''" by (simp add: regex_ev)
  moreover have "decryptData test_subtle
      (js ''AAAAAAAAAAAAAAAAYUBiLmNvBwcHBwcHBwcHBwcHBwcHBw=='') 7 = Inr (js ''a@b.co'')"
    by (simp add: crypt_ev)
  moreover have "map content (snd (addDocument test_service test_env (js ''a@b.co'') Chat []))
     = [js ''AAAAAAAAAAAAAAAAYUBiLmNvBwcHBwcHBwcHBwcHBwcHBw=='']"
    by (simp add: addDocument_ev)
  ultimately show ?thesis by blast
qed

text \<open>
  C2, amended: \<open>addDocument\<close> embeds, encrypts and persists the text it is given,
  unchanged: when it resolves, the store has gained one document whose content is
  \<open>encryptData\<close> of that text and whose vector is its embedding. The user's input
  is redacted by the caller, before anything is stored. \<open>handleSend\<close> searches with
  \<open>redactPII input\<close>; when the search settles, the language model answers and the
  write of the input resolves, the store holds a document whose vector and content
  are the embedding and the encryption of \<open>redactPII input\<close>; two inputs that are
  not blank and have the same redaction leave the same context and the same store,
  so nothing of the input but its redaction reaches the store; and neither the
  email pattern nor the phone pattern matches anywhere in \<open>redactPII input\<close>.
\<close>

theorem redaction_by_caller:
  "(addDocument svc env t ty st = (Resolved (), st')
    \<longrightarrow> (\<exists>key vec blob. keyPromise svc = Resolved key \<and> getEmbedding env t = Inr vec
           \<and> encryptData (crypto env) (max_arguments env) (random_iv env) t key = Inr blob
           \<and> idb_add \<lparr>doc_id = randomUUID env, content = blob, vector = vec,
                        timestamp = now env, doc_type = ty\<rparr> st = Inr st'))
   \<and> (\<not> list_all js_space input \<and> \<not> isLoading
    \<longrightarrow> fst (handleSend svc senv input isLoading st0)
         = (case search svc (search_env senv) (redactPII input) 3 st0 of
              Resolved docs \<Rightarrow> filter (\<lambda>m. 0.65 < mc_score m) docs
            | Rejected e \<Rightarrow> []
            | Pending \<Rightarrow> []))
   \<and> (\<not> list_all js_space input \<and> \<not> isLoading
       \<and> search svc (search_env senv) (redactPII input) 3 st0 \<noteq> Pending
       \<and> streamChat senv (redactPII input) (fst (handleSend svc senv input isLoading st0))
           = Inr fullResponse
       \<and> addDocument svc (input_env senv) (redactPII input) Chat st0 = (Resolved (), st1)
    \<longrightarrow> (\<exists>key vec blob. keyPromise svc = Resolved key
           \<and> getEmbedding (input_env senv) (redactPII input) = Inr vec
           \<and> encryptData (crypto (input_env senv)) (max_arguments (input_env senv))
                (random_iv (input_env senv)) (redactPII input) key = Inr blob
           \<and> \<lparr>doc_id = randomUUID (input_env senv), content = blob, vector = vec,
                timestamp = now (input_env senv), doc_type = Chat\<rparr>
               \<in> set (snd (handleSend svc senv input isLoading st0))))
   \<and> (\<not> list_all js_space input \<and> \<not> list_all js_space input'
       \<and> redactPII input = redactPII input'
    \<longrightarrow> handleSend svc senv input isLoading st0 = handleSend svc senv input' isLoading st0)
   \<and> matchFree email_re (redactPII input) \<and> matchFree phone_re (redactPII input)"
proof (intro conjI impI)
  assume "addDocument svc env t ty st = (Resolved (), st')"
  then show "\<exists>key vec blob. keyPromise svc = Resolved key \<and> getEmbedding env t = Inr vec
           \<and> encryptData (crypto env) (max_arguments env) (random_iv env) t key = Inr blob
           \<and> idb_add \<lparr>doc_id = randomUUID env, content = blob, vector = vec,
                        timestamp = now env, doc_type = ty\<rparr> st = Inr st'"
    by (rule addDocument_Resolved)
next
  assume "\<not> list_all js_space input \<and> \<not> isLoading"
  then have h: "\<not> list_all js_space input" "\<not> isLoading" by blast+
  show "fst (handleSend svc senv input isLoading st0)
         = (case search svc (search_env senv) (redactPII input) 3 st0 of
              Resolved docs \<Rightarrow> filter (\<lambda>m. 0.65 < mc_score m) docs
            | Rejected e \<Rightarrow> []
            | Pending \<Rightarrow> [])"
    by (rule handleSend_found[OF h])
next
  assume "\<not> list_all js_space input \<and> \<not> isLoading
       \<and> search svc (search_env senv) (redactPII input) 3 st0 \<noteq> Pending
       \<and> streamChat senv (redactPII input) (fst (handleSend svc senv input isLoading st0))
           = Inr fullResponse
       \<and> addDocument svc (input_env senv) (redactPII input) Chat st0 = (Resolved (), st1)"
  then have h: "\<not> list_all js_space input" "\<not> isLoading"
    "search svc (search_env senv) (redactPII input) 3 st0 \<noteq> Pending"
    "streamChat senv (redactPII input) (fst (handleSend svc senv input isLoading st0))
       = Inr fullResponse"
    "addDocument svc (input_env senv) (redactPII input) Chat st0 = (Resolved (), st1)"
    by blast+
  show "\<exists>key vec blob. keyPromise svc = Resolved key
           \<and> getEmbedding (input_env senv) (redactPII input) = Inr vec
           \<and> encryptData (crypto (input_env senv)) (max_arguments (input_env senv))
                (random_iv (input_env senv)) (redactPII input) key = Inr blob
           \<and> \<lparr>doc_id = randomUUID (input_env senv), content = blob, vector = vec,
                timestamp = now (input_env senv), doc_type = Chat\<rparr>
               \<in> set (snd (handleSend svc senv input isLoading st0))"
    by (rule handleSend_input_doc[OF h])
next
  assume "\<not> list_all js_space input \<and> \<not> list_all js_space input'
       \<and> redactPII input = redactPII input'"
  then have h: "\<not> list_all js_space input" "\<not> list_all js_space input'"
    "redactPII input = redactPII input'" by blast+
  show "handleSend svc senv input isLoading st0 = handleSend svc senv input' isLoading st0"
    by (rule handleSend_same_redaction[OF h])
next
  show "matchFree email_re (redactPII input)" by (rule redactPII_free(1))
next
  show "matchFree phone_re (redactPII input)" by (rule redactPII_free(2))
qed

text \<open>
  The amended C2 at an empty store: \<open>addDocument\<close> on \<open>a@b.co\<close>, and
  \<open>handleSend\<close> on the inputs \<open>a@b.co\<close> and \<open>c@d.co\<close>, which both redact to
  \<open>[EMAIL_REDACTED]\<close>.
\<close>

theorem redaction_by_caller_witness:
  "addDocument test_service test_env (js ''a@b.co'') Chat [] =
     (Resolved (),
      [\<lparr>doc_id = js ''a'', content = js ''AAAAAAAAAAAAAAAAYUBiLmNvBwcHBwcHBwcHBwcHBwcHBw=='',
        vector = [1, 0], timestamp = 2, doc_type = Chat\<rparr>])
   \<and> (\<exists>key vec blob. keyPromise test_service = Resolved key
         \<and> getEmbedding test_env (js ''a@b.co'') = Inr vec
         \<and> encryptData (crypto test_env) (max_arguments test_env) (random_iv test_env)
              (js ''a@b.co'') key = Inr blob)
   \<and> \<not> list_all js_space (js ''a@b.co'') \<and> \<not> list_all js_space (js ''c@d.co'')
   \<and> redactPII (js ''a@b.co'') = js ''[EMAIL_REDACTED]''
   \<and> redactPII (js ''a@b.co'') = redactPII (js ''c@d.co'')
   \<and> search test_service (search_env test_send_env) (redactPII (js ''a@b.co'')) 3 [] = Resolved []
   \<and> fst (handleSend test_service test_send_env (js ''a@b.co'') False []) = []
   \<and> streamChat test_send_env (redactPII (js ''a@b.co''))
        (fst (handleSend test_service test_send_env (js ''a@b.co'') False [])) = Inr (js ''ok'')
   \<and> addDocument test_service (input_env test_send_env) (redactPII (js ''a@b.co'')) Chat []
       = (Resolved (),
          [\<lparr>doc_id = js ''c'',
            content = js ''AAAAAAAAAAAAAAAAW0VNQUlMX1JFREFDVEVEXQcHBwcHBwcHBwcHBwcHBwc='',
            vector = [1, 0], timestamp = 2, doc_type = Chat\<rparr>])
   \<and> (\<exists>key vec blob. keyPromise test_service = Resolved key
         \<and> encryptData (crypto (input_env test_send_env)) (max_arguments (input_env test_send_env))
              (random_iv (input_env test_send_env)) (redactPII (js ''a@b.co'')) key = Inr blob
         \<and> \<lparr>doc_id = randomUUID (input_env test_send_env), content = blob, vector = vec,
              timestamp = now (input_env test_send_env), doc_type = Chat\<rparr>
             \<in> set (snd (handleSend test_service test_send_env (js ''a@b.co'') False [])))
   \<and> handleSend test_service test_send_env (js ''a@b.co'') False []
       = handleSend test_service test_send_env (js ''c@d.co'') False []
   \<and> matchFree email_re (redactPII (js ''a@b.co''))
   \<and> matchFree phone_re (redactPII (js ''a@b.co''))"
proof -
  let ?st1 = "[\<lparr>doc_id = js ''c'',
            content = js ''AAAAAAAAAAAAAAAAW0VNQUlMX1JFREFDVEVEXQcHBwcHBwcHBwcHBwcHBwc='',
            vector = [1, 0], timestamp = 2, doc_type = Chat\<rparr>]"
  have b: "\<not> list_all js_space (js ''a@b.co'')" "\<not> list_all js_space (js ''c@d.co'')"
    by (simp_all add: js_def js_space_def)
  have r: "redactPII (js ''a@b.co'') = js ''[EMAIL_REDACTED]''" by (simp add: regex_ev)
  have r': "redactPII (js ''c@d.co'') = js ''[EMAIL_REDACTED]''" by (simp add: regex_ev)
  from r r' have e: "redactPII (js ''a@b.co'') = redactPII (js ''c@d.co'')" by simp
  have s: "search test_service (search_env test_send_env) (redactPII (js ''a@b.co'')) 3 []
           = Resolved []"
    by (simp add: search_def test_service_def test_send_env_def test_env_def idb_getAll_def)
  then have s': "search test_service (search_env test_send_env) (redactPII (js ''a@b.co'')) 3 []
           \<noteq> Pending" by simp
  have c: "streamChat test_send_env (redactPII (js ''a@b.co''))
        (fst (handleSend test_service test_send_env (js ''a@b.co'') False [])) = Inr (js ''ok'')"
    by (simp add: test_send_env_def)
  have a: "addDocument test_service (input_env test_send_env) (redactPII (js ''a@b.co'')) Chat []
           = (Resolved (), ?st1)"
    unfolding r
    by (simp add: addDocument_def Promise_all2_def test_service_def test_send_env_def test_env_def
          idb_add_def crypt_ev)
  note t = redaction_by_caller[of test_service test_env "js ''a@b.co''" Chat "[]"
      "[\<lparr>doc_id = js ''a'', content = js ''AAAAAAAAAAAAAAAAYUBiLmNvBwcHBwcHBwcHBwcHBwcHBw=='',
        vector = [1, 0], timestamp = 2, doc_type = Chat\<rparr>]"
      "js ''a@b.co''" False test_send_env "[]" "js ''ok''" ?st1 "js ''c@d.co''"]
  from t addDocument_ev
  have 1: "\<exists>key vec blob. keyPromise test_service = Resolved key
         \<and> getEmbedding test_env (js ''a@b.co'') = Inr vec
         \<and> encryptData (crypto test_env) (max_arguments test_env) (random_iv test_env)
              (js ''a@b.co'') key = Inr blob"
    by blast
  from t b(1) have "fst (handleSend test_service test_send_env (js ''a@b.co'') False [])
         = (case search test_service (search_env test_send_env) (redactPII (js ''a@b.co'')) 3 [] of
              Resolved docs \<Rightarrow> filter (\<lambda>m. 0.65 < mc_score m) docs
            | Rejected e \<Rightarrow> []
            | Pending \<Rightarrow> [])" by blast
  then have 2: "fst (handleSend test_service test_send_env (js ''a@b.co'') False []) = []"
    by (simp add: s)
  from t b(1) s' c a
  have 3: "\<exists>key vec blob. keyPromise test_service = Resolved key
         \<and> encryptData (crypto (input_env test_send_env)) (max_arguments (input_env test_send_env))
              (random_iv (input_env test_send_env)) (redactPII (js ''a@b.co'')) key = Inr blob
         \<and> \<lparr>doc_id = randomUUID (input_env test_send_env), content = blob, vector = vec,
              timestamp = now (input_env test_send_env), doc_type = Chat\<rparr>
             \<in> set (snd (handleSend test_service test_send_env (js ''a@b.co'') False []))"
    by blast
  from t b e
  have 4: "handleSend test_service test_send_env (js ''a@b.co'') False []
       = handleSend test_service test_send_env (js ''c@d.co'') False []"
    by blast
  from t have 5: "matchFree email_re (redactPII (js ''a@b.co''))"
    "matchFree phone_re (redactPII (js ''a@b.co''))" by blast+
  from addDocument_ev 1 b r e s 2 c a 3 4 5 show ?thesis by blast
qed

subsection \<open>C3: the order of a full scan\<close>

text \<open>
  C3 says that \<open>getAll\<close> returns the documents in the order in which they were
  added. The object store is keyed by \<open>id\<close>, so the scan is in key order: after
  adding \<open>docB\<close> (id \<open>b\<close>) and then \<open>docA\<close> (id \<open>a\<close>), \<open>getAll\<close> returns
  \<open>docA\<close> first.
\<close>

theorem getAll_not_insertion_order:
  "idb_add_all [docB, docA] [] = Inr [docA, docB]
   \<and> idb_getAll [docA, docB] \<noteq> [docB, docA]"
  by (simp add: idb_add_def idb_getAll_def docA_def docB_def js_def)

text \<open>
  C3, amended: for every sequence of documents with pairwise different ids added to
  an empty store, every \<open>add\<close> succeeds and \<open>getAll\<close> returns exactly the
  added documents, each once, in ascending order of their ids.
\<close>

theorem getAll_key_order:
  assumes "distinct (map doc_id ds)"
  shows "\<exists>st. idb_add_all ds [] = Inr st \<and> mset (idb_getAll st) = mset ds
              \<and> sorted (map doc_id (idb_getAll st))"
  using idb_add_all_sorted[of ds "[]"] assms by (simp add: idb_getAll_def)

text \<open>The amended C3 at the sequence \<open>docB\<close>, \<open>docA\<close>.\<close>

theorem getAll_key_order_witness:
  "distinct (map doc_id [docB, docA])
   \<and> (\<exists>st. idb_add_all [docB, docA] [] = Inr st \<and> mset (idb_getAll st) = mset [docB, docA]
              \<and> sorted (map doc_id (idb_getAll st)))"
proof -
  have h: "distinct (map doc_id [docB, docA])" by (simp add: docA_def docB_def js_def)
  from getAll_key_order[OF h] h show ?thesis by blast
qed

subsection \<open>C4: the score threshold\<close>

text \<open>
  C4 says that the retrieval takes a \<open>minScore\<close> and returns no entry scoring
  below it. \<open>search\<close> takes a query and a limit only and filters nothing: with the
  query vector \<open>[1, 0]\<close> and the single stored vector \<open>[0, 1]\<close> it returns that
  document with score 0.
\<close>

theorem search_below_threshold:
  "search test_service test_env (js ''q'') 3 [docA] =
     Resolved [\<lparr>mc_text = js ''hi'', mc_timestamp = 2, mc_score = 0\<rparr>]"
  by (simp add: search_def test_service_def test_env_def idb_getAll_def topDocs_def js_slice0_def
       docA_def cos_ev decryptDoc_def crypt_ev)

text \<open>
  C4, amended: \<open>search\<close> has no threshold: when the database, the key, the
  embedding of the query and the scan succeed and \<open>limit\<close> is not negative, it
  returns \<open>min limit n\<close> entries for a store of \<open>n\<close> documents, whatever their
  scores. The threshold is applied by the caller, after decryption and with a fixed
  value: \<open>handleSend\<close> keeps exactly the entries of \<open>search\<close> whose score is
  greater than 0.65, so every entry of its context scores above 0.65.
\<close>

theorem threshold_in_handleSend:
  "(dbPromise svc = Resolved () \<and> keyPromise svc = Resolved key
      \<and> getEmbedding env query = Inr qv \<and> tx_error env = None \<and> 0 \<le> limit
    \<longrightarrow> (\<exists>results. search svc env query limit st = Resolved results
           \<and> length results = min (nat limit) (length st)))
   \<and> (\<not> list_all js_space input \<and> \<not> isLoading
       \<and> search svc (search_env senv) (redactPII input) 3 st' = Resolved found
    \<longrightarrow> fst (handleSend svc senv input isLoading st')
          = filter (\<lambda>m. 0.65 < mc_score m) found)
   \<and> (\<forall>m\<in>set (fst (handleSend svc senv input isLoading st')). 0.65 < mc_score m)"
proof (intro conjI impI)
  assume a: "dbPromise svc = Resolved () \<and> keyPromise svc = Resolved key
      \<and> getEmbedding env query = Inr qv \<and> tx_error env = None \<and> 0 \<le> limit"
  then have "search svc env query limit st
             = Resolved (map (decryptDoc (crypto env) key) (topDocs qv limit st))"
    by (intro search_Resolved) simp_all
  moreover have "length (map (decryptDoc (crypto env) key) (topDocs qv limit st))
                 = min (nat limit) (length st)"
    using a by (simp add: length_topDocs)
  ultimately show "\<exists>results. search svc env query limit st = Resolved results
           \<and> length results = min (nat limit) (length st)" by blast
next
  assume "\<not> list_all js_space input \<and> \<not> isLoading
       \<and> search svc (search_env senv) (redactPII input) 3 st' = Resolved found"
  then show "fst (handleSend svc senv input isLoading st')
          = filter (\<lambda>m. 0.65 < mc_score m) found"
    by (intro handleSend_context) simp_all
next
  show "\<forall>m\<in>set (fst (handleSend svc senv input isLoading st')). 0.65 < mc_score m"
    by (rule handleSend_scores)
qed

text \<open>The amended C4 at the store \<open>docA\<close>, \<open>docB\<close> and the input \<open>q\<close>.\<close>

theorem threshold_in_handleSend_witness:
  "dbPromise test_service = Resolved () \<and> keyPromise test_service = Resolved 7
   \<and> getEmbedding test_env (js ''q'') = Inr [1, 0] \<and> tx_error test_env = None
   \<and> (0::int) \<le> 3
   \<and> (\<exists>results. search test_service test_env (js ''q'') 3 [docA, docB] = Resolved results
         \<and> length results = min (nat 3) (length [docA, docB]))
   \<and> \<not> list_all js_space (js ''q'')
   \<and> search test_service (search_env test_send_env) (redactPII (js ''q'')) 3 [docA, docB]
       = Resolved [\<lparr>mc_text = js ''[Encrypted Memory]'', mc_timestamp = 1, mc_score = 1\<rparr>,
                   \<lparr>mc_text = js ''hi'', mc_timestamp = 2, mc_score = 0\<rparr>]
   \<and> fst (handleSend test_service test_send_env (js ''q'') False [docA, docB])
       = [\<lparr>mc_text = js ''[Encrypted Memory]'', mc_timestamp = 1, mc_score = 1\<rparr>]
   \<and> list_all (\<lambda>m. 0.65 < mc_score m)
        (fst (handleSend test_service test_send_env (js ''q'') False [docA, docB]))"
proof -
  let ?found = "[\<lparr>mc_text = js ''[Encrypted Memory]'', mc_timestamp = 1, mc_score = 1\<rparr>,
                 \<lparr>mc_text = js ''hi'', mc_timestamp = 2, mc_score = 0\<rparr>]"
  have h: "dbPromise test_service = Resolved ()" "keyPromise test_service = Resolved 7"
    "getEmbedding test_env (js ''q'') = Inr [1, 0]" "tx_error test_env = None"
    by (simp_all add: test_service_def test_env_def)
  have b: "\<not> list_all js_space (js ''q'')" by (simp add: js_def js_space_def)
  have r: "redactPII (js ''q'') = js ''q''" by (simp add: regex_ev)
  have s: "search test_service (search_env test_send_env) (redactPII (js ''q'')) 3 [docA, docB]
           = Resolved ?found"
    by (simp add: r test_send_env_def search_result_ev)
  note t = threshold_in_handleSend[of test_service 7 test_env "js ''q''" "[1, 0]" 3
      "[docA, docB]" "js ''q''" False test_send_env "[docA, docB]" ?found]
  from t h
  have 1: "\<exists>results. search test_service test_env (js ''q'') 3 [docA, docB] = Resolved results
         \<and> length results = min (nat 3) (length [docA, docB])"
    by simp
  from t b s
  have 2: "fst (handleSend test_service test_send_env (js ''q'') False [docA, docB])
           = filter (\<lambda>m. 0.65 < mc_score m) ?found"
    by blast
  from t
  have 3: "\<forall>m\<in>set (fst (handleSend test_service test_send_env (js ''q'') False [docA, docB])).
           0.65 < mc_score m"
    by blast
  from 2 have 4: "fst (handleSend test_service test_send_env (js ''q'') False [docA, docB])
       = [\<lparr>mc_text = js ''[Encrypted Memory]'', mc_timestamp = 1, mc_score = 1\<rparr>]"
    by simp
  from 3 have 5: "list_all (\<lambda>m. 0.65 < mc_score m)
        (fst (handleSend test_service test_send_env (js ''q'') False [docA, docB]))"
    by (simp add: list_all_iff)
  from h 1 b s 4 5 show ?thesis by simp
qed

subsection \<open>C5: a record that does not decrypt\<close>

text \<open>
  C5: decrypt failures are isolated. When the database and the key are available and
  the embedding of the query and the scan succeed, \<open>search\<close> resolves, whatever the
  stored blobs are. It returns one entry per selected document, in the order of the
  ranking, with the document's timestamp and score; its text is the placeholder
  \<open>[Encrypted Memory]\<close> when \<open>decryptData\<close> fails on the document's content
  and the decrypted text otherwise, which is the plaintext itself for a content that
  \<open>encryptData\<close> produced from a well-formed plaintext without leading U+FEFF
  (on an engine with any limit of arguments).
\<close>

theorem search_isolates_decrypt_failures:
  assumes "dbPromise svc = Resolved ()" "keyPromise svc = Resolved key"
    "getEmbedding env query = Inr qv" "tx_error env = None"
  shows "\<exists>results. search svc env query limit st = Resolved results
      \<and> length results = length (topDocs qv limit st)
      \<and> (\<forall>i<length results.
            mc_timestamp (results ! i) = timestamp (topDocs qv limit st ! i)
          \<and> mc_score (results ! i) = score (topDocs qv limit st ! i)
          \<and> (case decryptData (crypto env) (content (topDocs qv limit st ! i)) key of
                Inl e \<Rightarrow> mc_text (results ! i) = js ''[Encrypted Memory]''
              | Inr t \<Rightarrow> mc_text (results ! i) = t)
          \<and> (\<forall>n iv p. subtle_correct (crypto env) \<and> length iv = 12 \<and> wellformed p \<and> no_bom p
                  \<and> encryptData (crypto env) n iv p key = Inr (content (topDocs qv limit st ! i))
                \<longrightarrow> mc_text (results ! i) = p))"
proof -
  let ?rs = "map (decryptDoc (crypto env) key) (topDocs qv limit st)"
  have "search svc env query limit st = Resolved ?rs" using assms by (rule search_Resolved)
  moreover have "length ?rs = length (topDocs qv limit st)" by simp
  moreover have "\<forall>i<length ?rs.
            mc_timestamp (?rs ! i) = timestamp (topDocs qv limit st ! i)
          \<and> mc_score (?rs ! i) = score (topDocs qv limit st ! i)
          \<and> (case decryptData (crypto env) (content (topDocs qv limit st ! i)) key of
                Inl e \<Rightarrow> mc_text (?rs ! i) = js ''[Encrypted Memory]''
              | Inr t \<Rightarrow> mc_text (?rs ! i) = t)
          \<and> (\<forall>n iv p. subtle_correct (crypto env) \<and> length iv = 12 \<and> wellformed p \<and> no_bom p
                  \<and> encryptData (crypto env) n iv p key = Inr (content (topDocs qv limit st ! i))
                \<longrightarrow> mc_text (?rs ! i) = p)"
  proof (intro allI impI)
    fix i assume "i < length ?rs"
    then have n: "?rs ! i = decryptDoc (crypto env) key (topDocs qv limit st ! i)" by simp
    show "mc_timestamp (?rs ! i) = timestamp (topDocs qv limit st ! i)
          \<and> mc_score (?rs ! i) = score (topDocs qv limit st ! i)
          \<and> (case decryptData (crypto env) (content (topDocs qv limit st ! i)) key of
                Inl e \<Rightarrow> mc_text (?rs ! i) = js ''[Encrypted Memory]''
              | Inr t \<Rightarrow> mc_text (?rs ! i) = t)
          \<and> (\<forall>n iv p. subtle_correct (crypto env) \<and> length iv = 12 \<and> wellformed p \<and> no_bom p
                  \<and> encryptData (crypto env) n iv p key = Inr (content (topDocs qv limit st ! i))
                \<longrightarrow> mc_text (?rs ! i) = p)"
      unfolding n using decryptDoc_fields[of "crypto env" key "topDocs qv limit st ! i"]
        decryptDoc_roundtrip[where cr = "crypto env" and key = key
          and d = "topDocs qv limit st ! i"]
      by blast
  qed
  ultimately show ?thesis by blast
qed

text \<open>
  C5 at the store \<open>docA\<close>, \<open>docB\<close>: the blob of \<open>docB\<close> is not base64, its
  entry carries the placeholder and the entry of \<open>docA\<close> carries \<open>hi\<close>.
\<close>

theorem search_isolates_decrypt_failures_witness:
  "dbPromise test_service = Resolved () \<and> keyPromise test_service = Resolved 7
   \<and> getEmbedding test_env (js ''q'') = Inr [1, 0] \<and> tx_error test_env = None
   \<and> decryptData test_subtle (content docB) 7 = Inl InvalidCharacterError
   \<and> search test_service test_env (js ''q'') 3 [docA, docB] =
       Resolved [\<lparr>mc_text = js ''[Encrypted Memory]'', mc_timestamp = 1, mc_score = 1\<rparr>,
                 \<lparr>mc_text = js ''hi'', mc_timestamp = 2, mc_score = 0\<rparr>]
   \<and> (\<exists>results. search test_service test_env (js ''q'') 3 [docA, docB] = Resolved results
        \<and> length results = length (topDocs [1, 0] 3 [docA, docB]))"
proof -
  have h: "dbPromise test_service = Resolved ()" "keyPromise test_service = Resolved 7"
    "getEmbedding test_env (js ''q'') = Inr [1, 0]" "tx_error test_env = None"
    by (simp_all add: test_service_def test_env_def)
  have d: "decryptData test_subtle (content docB) 7 = Inl InvalidCharacterError"
    by (simp add: docB_def decryptData_def b64_ev)
  from search_isolates_decrypt_failures[OF h, of 3 "[docA, docB]"]
  have "\<exists>results. search test_service test_env (js ''q'') 3 [docA, docB] = Resolved results
        \<and> length results = length (topDocs [1, 0] 3 [docA, docB])" by blast
  with h d search_result_ev show ?thesis by simp
qed

subsection \<open>C6: a failing embedding\<close>

text \<open>
  C6: when the embedding provider fails on the text, \<open>addDocument\<close> fails as a
  whole and nothing is persisted. In every case the store is unchanged and the
  promise does not resolve. When the database and the key are available, so that the
  provider is called, the promise is rejected: with the error of the provider, or,
  when \<open>encryptData\<close> fails too and settles first, with the error of
  \<open>encryptData\<close>, as \<^verbatim>\<open>Promise.all\<close> decides.
\<close>

theorem addDocument_embedding_fails:
  assumes "getEmbedding env text_in = Inl e"
  shows "snd (addDocument svc env text_in ty st) = st
         \<and> fst (addDocument svc env text_in ty st) \<noteq> Resolved ()
         \<and> (dbPromise svc = Resolved () \<and> keyPromise svc = Resolved key
            \<longrightarrow> addDocument svc env text_in ty st =
                  (Rejected
                     (case encryptData (crypto env) (max_arguments env) (random_iv env)
                             text_in key of
                        Inl e' \<Rightarrow> if embedding_first env then e else e'
                      | Inr blob \<Rightarrow> e),
                   st))"
proof (intro conjI impI)
  show "snd (addDocument svc env text_in ty st) = st"
    by (rule addDocument_embedding_Inl(1)[OF assms])
next
  show "fst (addDocument svc env text_in ty st) \<noteq> Resolved ()"
    by (rule addDocument_embedding_Inl(2)[OF assms])
next
  assume "dbPromise svc = Resolved () \<and> keyPromise svc = Resolved key"
  then have h: "dbPromise svc = Resolved ()" "keyPromise svc = Resolved key" by blast+
  show "addDocument svc env text_in ty st =
                  (Rejected
                     (case encryptData (crypto env) (max_arguments env) (random_iv env)
                             text_in key of
                        Inl e' \<Rightarrow> if embedding_first env then e else e'
                      | Inr blob \<Rightarrow> e),
                   st)"
    by (rule addDocument_embedding_Inl(3)[OF assms h])
qed

text \<open>C6 at a provider that always fails and a store holding \<open>docB\<close>: the promise
  is rejected with the error of the provider.\<close>

theorem addDocument_embedding_fails_witness:
  "getEmbedding failing_env (js ''hello'') = Inl ProviderError
   \<and> dbPromise test_service = Resolved () \<and> keyPromise test_service = Resolved 7
   \<and> addDocument test_service failing_env (js ''hello'') Chat [docB]
       = (Rejected ProviderError, [docB])
   \<and> snd (addDocument test_service failing_env (js ''hello'') Chat [docB]) = [docB]
   \<and> fst (addDocument test_service failing_env (js ''hello'') Chat [docB]) \<noteq> Resolved ()"
proof -
  have h: "getEmbedding failing_env (js ''hello'') = Inl ProviderError"
    by (simp add: failing_env_def)
  have s: "dbPromise test_service = Resolved ()" "keyPromise test_service = Resolved 7"
    by (simp_all add: test_service_def)
  have c: "encryptData (crypto failing_env) (max_arguments failing_env) (random_iv failing_env)
             (js ''hello'') 7 = Inr (js ''AAAAAAAAAAAAAAAAaGVsbG8HBwcHBwcHBwcHBwcHBwcH'')"
    by (simp add: failing_env_def test_env_def crypt_ev)
  from addDocument_embedding_fails[OF h, of test_service Chat "[docB]" 7] s
  have "addDocument test_service failing_env (js ''hello'') Chat [docB]
       = (Rejected ProviderError, [docB])"
    by (simp add: c)
  with h s show ?thesis by simp
qed

subsection \<open>C7: the order of the two patterns\<close>

text \<open>
  C7 says that applying the email pattern and the phone pattern in either order
  gives the same text. On \<open>5551234567@example.com\<close> the order of \<open>redactPII\<close>
  (emails first) gives \<open>[EMAIL_REDACTED]\<close>, the other order gives
  \<open>[PHONE_REDACTED]@example.com\<close>.
\<close>

theorem redact_order_matters:
  "redactPII (js ''5551234567@example.com'') = js ''[EMAIL_REDACTED]''
   \<and> redactPhones (redactEmails (js ''5551234567@example.com'')) = js ''[EMAIL_REDACTED]''
   \<and> redactEmails (redactPhones (js ''5551234567@example.com''))
       = js ''[PHONE_REDACTED]@example.com''"
  by (simp add: regex_ev)

text \<open>
  C7, amended: \<open>redactPII\<close> replaces emails first and phone numbers second. The
  other order gives the same text on every input in which no phone match starts
  inside an email match and no email match starts inside a phone match: wherever one
  of the two patterns matches, the other matches at no position which that match
  covers.
\<close>

theorem redact_order:
  "redactPII x = redactPhones (redactEmails x)
   \<and> (independent x \<longrightarrow> redactEmails (redactPhones x) = redactPII x)"
  using redact_commute[of x] by (simp add: redactPII_def)

text \<open>The amended C7 at \<open>contact a@b.com or (555) 123-4567\<close>, where both
  patterns match.\<close>

theorem redact_order_witness:
  "independent (js ''contact a@b.com or (555) 123-4567'')
   \<and> redactPII (js ''contact a@b.com or (555) 123-4567'')
       = js ''contact [EMAIL_REDACTED] or [PHONE_REDACTED]''
   \<and> redactEmails (redactPhones (js ''contact a@b.com or (555) 123-4567''))
       = js ''contact [EMAIL_REDACTED] or [PHONE_REDACTED]''"
proof -
  have h: "independent (js ''contact a@b.com or (555) 123-4567'')"
    by (simp add: independent_def uncovered_def regex_ev upt_rec)
  have r: "redactPII (js ''contact a@b.com or (555) 123-4567'')
       = js ''contact [EMAIL_REDACTED] or [PHONE_REDACTED]''"
    by (simp add: regex_ev)
  from redact_order[of "js ''contact a@b.com or (555) 123-4567''"] h r show ?thesis by simp
qed

subsection \<open>C8: redacting twice\<close>

text \<open>
  C8: \<open>redactPII\<close> is idempotent: \<open>redactPII (redactPII x) = redactPII x\<close> for
  every string \<open>x\<close>.
\<close>

theorem redactPII_idempotent: "redactPII (redactPII x) = redactPII x"
proof -
  have e: "matchFree email_re (redactPII x)"
    unfolding redactPII_def by (rule redactPhones_keeps) (rule redactEmails_free)
  have p: "matchFree phone_re (redactPII x)"
    unfolding redactPII_def by (rule redactPhones_free)
  have "redactPII (redactPII x) = redactPhones (redactEmails (redactPII x))"
    by (simp add: redactPII_def)
  also have "\<dots> = redactPhones (redactPII x)" by (simp add: redactEmails_fixed[OF e])
  also have "\<dots> = redactPII x" by (rule redactPhones_fixed[OF p])
  finally show ?thesis .
qed

text \<open>C8 at \<open>a@b.co\<close>.\<close>

theorem redactPII_idempotent_witness:
  "redactPII (redactPII (js ''a@b.co'')) = redactPII (js ''a@b.co'')"
  by (rule redactPII_idempotent)

subsection \<open>C9: the errors of \<^verbatim>\<open>decryptData\<close>\<close>

text \<open>
  C9 says that \<open>decryptData\<close> fails only with the error of a failed tag
  verification. On the blob \<open>!\<close>, which is not base64, \<^verbatim>\<open>atob\<close> raises
  \<open>InvalidCharacterError\<close> before anything is verified.
\<close>

theorem decryptData_atob_error:
  "decryptData test_subtle (js ''!'') 7 = Inl InvalidCharacterError
   \<and> InvalidCharacterError \<noteq> OperationError"
  by (simp add: decryptData_def b64_ev)

text \<open>
  C9, amended: \<open>decryptData\<close> has three outcomes and no other. It raises
  \<open>InvalidCharacterError\<close> exactly when the blob is not base64; it raises
  \<open>OperationError\<close> exactly when the blob is base64 and AES-GCM rejects the decoded
  bytes (first 12 as nonce, the rest as ciphertext and tag); otherwise it returns the
  decoded plaintext.
\<close>

theorem decryptData_outcomes:
  "(atob blob = Inl InvalidCharacterError
      \<and> decryptData cr blob k = Inl InvalidCharacterError)
   \<or> (\<exists>binary. atob blob = Inr binary
        \<and> subtle_decrypt cr k (take 12 (map of_nat binary)) (drop 12 (map of_nat binary)) = None
        \<and> decryptData cr blob k = Inl OperationError)
   \<or> (\<exists>binary decrypted. atob blob = Inr binary
        \<and> subtle_decrypt cr k (take 12 (map of_nat binary)) (drop 12 (map of_nat binary))
            = Some decrypted
        \<and> decryptData cr blob k = Inr (TextDecoder_decode decrypted))"
proof (cases "atob blob")
  case (Inl e)
  with atob_error[OF Inl] show ?thesis by (simp add: decryptData_def)
next
  case (Inr binary)
  then show ?thesis
    by (cases "subtle_decrypt cr k (take 12 (map of_nat binary)) (drop 12 (map of_nat binary))")
       (simp_all add: decryptData_def Let_def)
qed

subsection \<open>C10: \<^verbatim>\<open>createSessionKey\<close> is \<^verbatim>\<open>getPersistentKey\<close>\<close>

text \<open>
  C10 says that \<open>createSessionKey\<close> returns the key \<open>getPersistentKey\<close> would
  return, in every state of the key store, so that both converge on the same
  persisted key. On an empty key store, a call of \<open>getPersistentKey\<close> and a call
  of \<open>createSessionKey\<close>, which runs the same code, that overlap both find no
  key: the first returns the key it generates, 1, the second returns its own, 2, and
  the key store ends with 2, which the first caller does not hold.
\<close>

theorem overlapping_first_calls_diverge:
  "overlapping_calls (generating (1::nat)) (generating 2) Map.empty
     = (Resolved 1, Resolved 2, [KEY_ID \<mapsto> 2])"
  by (simp add: overlapping_calls_def key_read_def key_settle_def generating_def)

text \<open>
  C10, amended, for calls that no other call overlaps: \<open>createSessionKey\<close>
  settles as \<open>getPersistentKey\<close> does and leaves the key store in the same state.
  When the database opens and the read succeeds, a call on a store that holds a key
  returns that key and changes nothing, and a call on a store that holds none returns
  the key it generates once that key is written. A key that a call returns is the
  one the store holds afterwards, and every later call through either entry point
  returns it.
\<close>

theorem createSessionKey_converges:
  "createSessionKey env keys = getPersistentKey env keys
   \<and> (open_error env1 = None \<and> get_error env1 = None \<and> keys1 KEY_ID = Some k1
      \<longrightarrow> createSessionKey env1 keys1 = (Resolved k1, keys1))
   \<and> (open_error env2 = None \<and> get_error env2 = None \<and> keys2 KEY_ID = None
        \<and> generated env2 = Some g \<and> put_completes env2
      \<longrightarrow> createSessionKey env2 keys2 = (Resolved g, keys2(KEY_ID \<mapsto> g)))
   \<and> (fst (createSessionKey env keys) = Resolved k
      \<longrightarrow> snd (createSessionKey env keys) KEY_ID = Some k
        \<and> (open_error env' = None \<and> get_error env' = None
           \<longrightarrow> getPersistentKey env' (snd (createSessionKey env keys))
                 = (Resolved k, snd (createSessionKey env keys))
             \<and> createSessionKey env' (snd (getPersistentKey env keys))
                 = (Resolved k, snd (getPersistentKey env keys))))"
proof (intro conjI impI)
  show "createSessionKey env keys = getPersistentKey env keys"
    by (simp add: createSessionKey_def)
next
  assume "open_error env1 = None \<and> get_error env1 = None \<and> keys1 KEY_ID = Some k1"
  then have h: "open_error env1 = None" "get_error env1 = None" "keys1 KEY_ID = Some k1"
    by blast+
  show "createSessionKey env1 keys1 = (Resolved k1, keys1)"
    unfolding createSessionKey_def using h by (rule getPersistentKey_stored)
next
  assume "open_error env2 = None \<and> get_error env2 = None \<and> keys2 KEY_ID = None
        \<and> generated env2 = Some g \<and> put_completes env2"
  then have h: "open_error env2 = None" "get_error env2 = None" "keys2 KEY_ID = None"
    "generated env2 = Some g" "put_completes env2" by blast+
  show "createSessionKey env2 keys2 = (Resolved g, keys2(KEY_ID \<mapsto> g))"
    unfolding createSessionKey_def using h by (rule getPersistentKey_generates)
next
  assume "fst (createSessionKey env keys) = Resolved k"
  then have "fst (getPersistentKey env keys) = Resolved k" by (simp add: createSessionKey_def)
  then show "snd (createSessionKey env keys) KEY_ID = Some k"
    unfolding createSessionKey_def by (rule getPersistentKey_persisted)
next
  assume a: "fst (createSessionKey env keys) = Resolved k"
    and "open_error env' = None \<and> get_error env' = None"
  then have h: "open_error env' = None" "get_error env' = None" by blast+
  from a have "fst (getPersistentKey env keys) = Resolved k" by (simp add: createSessionKey_def)
  then have p: "snd (getPersistentKey env keys) KEY_ID = Some k"
    by (rule getPersistentKey_persisted)
  show "getPersistentKey env' (snd (createSessionKey env keys))
          = (Resolved k, snd (createSessionKey env keys))"
    unfolding createSessionKey_def using h p by (rule getPersistentKey_stored)
next
  assume a: "fst (createSessionKey env keys) = Resolved k"
    and "open_error env' = None \<and> get_error env' = None"
  then have h: "open_error env' = None" "get_error env' = None" by blast+
  from a have "fst (getPersistentKey env keys) = Resolved k" by (simp add: createSessionKey_def)
  then have p: "snd (getPersistentKey env keys) KEY_ID = Some k"
    by (rule getPersistentKey_persisted)
  show "createSessionKey env' (snd (getPersistentKey env keys))
          = (Resolved k, snd (getPersistentKey env keys))"
    unfolding createSessionKey_def using h p by (rule getPersistentKey_stored)
qed

text \<open>
  The amended C10 at an empty key store: a first call generates the key 1 and
  stores it; a call on that store returns 1 although \<^verbatim>\<open>generateKey\<close> would now
  produce 2.
\<close>

theorem createSessionKey_converges_witness:
  "createSessionKey (generating (1::nat)) Map.empty
     = getPersistentKey (generating 1) Map.empty
   \<and> open_error (generating (2::nat)) = None \<and> get_error (generating (2::nat)) = None
   \<and> [KEY_ID \<mapsto> (1::nat)] KEY_ID = Some 1
   \<and> createSessionKey (generating 2) [KEY_ID \<mapsto> (1::nat)] = (Resolved 1, [KEY_ID \<mapsto> 1])
   \<and> open_error (generating (1::nat)) = None \<and> get_error (generating (1::nat)) = None
   \<and> (Map.empty :: jsstring \<rightharpoonup> nat) KEY_ID = None
   \<and> generated (generating (1::nat)) = Some 1 \<and> put_completes (generating (1::nat))
   \<and> createSessionKey (generating (1::nat)) Map.empty = (Resolved 1, [KEY_ID \<mapsto> 1])
   \<and> fst (createSessionKey (generating (1::nat)) Map.empty) = Resolved 1
   \<and> snd (createSessionKey (generating (1::nat)) Map.empty) KEY_ID = Some 1
   \<and> getPersistentKey (generating 2) (snd (createSessionKey (generating (1::nat)) Map.empty))
       = (Resolved 1, snd (createSessionKey (generating 1) Map.empty))
   \<and> createSessionKey (generating 2) (snd (getPersistentKey (generating (1::nat)) Map.empty))
       = (Resolved 1, snd (getPersistentKey (generating 1) Map.empty))"
proof -
  note t = createSessionKey_converges[of "generating (1::nat)" Map.empty
      "generating 2" "[KEY_ID \<mapsto> 1]" 1 "generating 1" Map.empty 1 1 "generating 2"]
  have e: "(Map.empty :: jsstring \<rightharpoonup> nat) KEY_ID = None"
    "[KEY_ID \<mapsto> (1::nat)] KEY_ID = Some 1" by simp_all
  from t have 1: "createSessionKey (generating (1::nat)) Map.empty
     = getPersistentKey (generating 1) Map.empty" by blast
  from t key_store_ev[of "2::nat"] e(2)
  have 2: "createSessionKey (generating 2) [KEY_ID \<mapsto> (1::nat)] = (Resolved 1, [KEY_ID \<mapsto> 1])"
    by blast
  from t key_store_ev[of "1::nat"] e(1)
  have 3: "createSessionKey (generating (1::nat)) Map.empty = (Resolved 1, [KEY_ID \<mapsto> 1])"
    by blast
  then have 4: "fst (createSessionKey (generating (1::nat)) Map.empty) = Resolved 1" by simp
  from t 4 have 5: "snd (createSessionKey (generating (1::nat)) Map.empty) KEY_ID = Some 1"
    by blast
  from t 4 key_store_ev(1,2)[of "2::nat"]
  have 6: "getPersistentKey (generating 2) (snd (createSessionKey (generating (1::nat)) Map.empty))
       = (Resolved 1, snd (createSessionKey (generating 1) Map.empty))"
    "createSessionKey (generating 2) (snd (getPersistentKey (generating (1::nat)) Map.empty))
       = (Resolved 1, snd (getPersistentKey (generating 1) Map.empty))"
    by blast+
  from 1 key_store_ev[of "2::nat"] key_store_ev[of "1::nat"] e 2 3 4 5 6 show ?thesis by blast
qed

end
